theory Spec2Isabelle
  imports Complex_Main "HOL-Library.Log_Nat"
begin

section \<open>Python values\<close>

text \<open>
  A Python \<^verbatim>\<open>str\<close> is a sequence of Unicode code points, and \<^verbatim>\<open>len\<close> and slicing count
  code points. A string is therefore a list of code points (natural numbers); \<open>u\<close> turns
  an ASCII literal into such a list.
\<close>

type_synonym ustr = "nat list"

definition u :: "string \<Rightarrow> ustr" where
  "u s = map of_char s"

text \<open>Decimal digits of a natural number, and \<^verbatim>\<open>str(n)\<close> of an integer.\<close>

fun digits :: "nat \<Rightarrow> ustr" where
  "digits n = (if n < 10 then [48 + n] else digits (n div 10) @ [48 + n mod 10])"

declare digits.simps [simp del]

definition str_int :: "int \<Rightarrow> ustr" where
  "str_int n = (if n < 0 then 45 # digits (nat (- n)) else digits (nat n))"

text \<open>
  The exceptions the modelled code raises or lets through. \<open>ClientError\<close> stands for
  \<^verbatim>\<open>aiohttp.ClientError\<close> and its subclasses, \<open>RetryError\<close> for \<^verbatim>\<open>tenacity.RetryError\<close>
  around the exception of the last attempt, \<open>OtherException\<close> for any further subclass
  of \<^verbatim>\<open>Exception\<close>, and \<open>BaseExit\<close> for the subclasses of \<^verbatim>\<open>BaseException\<close> that are
  not an \<^verbatim>\<open>Exception\<close> (\<^verbatim>\<open>KeyboardInterrupt\<close>, \<^verbatim>\<open>SystemExit\<close>, \<^verbatim>\<open>asyncio.CancelledError\<close>).
\<close>

datatype exn =
    PostHogAPIError ustr
  | ClientError ustr
  | RuntimeError ustr
  | RetryError exn
  | KeyError
  | IndexError
  | TypeError
  | AttributeError
  | ValueError
  | OverflowError
  | ZeroDivisionError
  | OtherException ustr
  | BaseExit ustr

definition bindE :: "exn + 'a \<Rightarrow> ('a \<Rightarrow> exn + 'b) \<Rightarrow> exn + 'b" where
  "bindE m f = (case m of Inl e \<Rightarrow> Inl e | Inr x \<Rightarrow> f x)"

text \<open>
  A Python \<^verbatim>\<open>float\<close>: a finite value is a sign bit and a magnitude (so that \<^verbatim>\<open>-0.0\<close> is
  \<open>Finite True 0\<close>), next to the infinities and NaN.
\<close>

datatype pyfloat = Finite bool rat | Infinity bool | NaN

text \<open>
  What \<^verbatim>\<open>json.loads\<close> returns: \<^verbatim>\<open>None\<close>, \<^verbatim>\<open>bool\<close>, \<^verbatim>\<open>int\<close>, \<^verbatim>\<open>float\<close>, \<^verbatim>\<open>str\<close>, \<^verbatim>\<open>list\<close>
  and \<^verbatim>\<open>dict\<close> with string keys. A dict is an association list in insertion order,
  looked up with \<open>map_of\<close>.
\<close>

datatype json =
    JNull
  | JBool bool
  | JInt int
  | JFloat pyfloat
  | JStr ustr
  | JList "json list"
  | JObj "(ustr \<times> json) list"

text \<open>Truth value of an object, as \<^verbatim>\<open>if x:\<close> tests it.\<close>

definition truthy :: "json \<Rightarrow> bool" where
  "truthy v =
     (case v of
        JNull \<Rightarrow> False
      | JBool b \<Rightarrow> b
      | JInt n \<Rightarrow> n \<noteq> 0
      | JFloat f \<Rightarrow> (case f of Finite s m \<Rightarrow> m \<noteq> 0 | Infinity s \<Rightarrow> True | NaN \<Rightarrow> True)
      | JStr s \<Rightarrow> s \<noteq> []
      | JList xs \<Rightarrow> xs \<noteq> []
      | JObj d \<Rightarrow> d \<noteq> [])"

text \<open>\<^verbatim>\<open>d.get(k, default)\<close> on a dict, and on any object (only a dict has \<^verbatim>\<open>get\<close>).\<close>

definition dict_get :: "(ustr \<times> json) list \<Rightarrow> ustr \<Rightarrow> json \<Rightarrow> json" where
  "dict_get d k dflt = (case map_of d k of Some v \<Rightarrow> v | None \<Rightarrow> dflt)"

definition py_get :: "json \<Rightarrow> ustr \<Rightarrow> json \<Rightarrow> exn + json" where
  "py_get v k dflt = (case v of JObj d \<Rightarrow> Inr (dict_get d k dflt) | _ \<Rightarrow> Inl AttributeError)"

text \<open>
  \<^verbatim>\<open>v[i]\<close> for an integer \<open>i\<close>: negative indices count from the end of a list or string;
  a dict from JSON has string keys only, so an integer key is a \<^verbatim>\<open>KeyError\<close>; the other
  objects are not subscriptable.
\<close>

definition py_index :: "'a list \<Rightarrow> int \<Rightarrow> 'a option" where
  "py_index xs i =
     (let n = int (length xs); j = (if i < 0 then n + i else i)
      in if 0 \<le> j \<and> j < n then Some (xs ! nat j) else None)"

definition py_getitem :: "json \<Rightarrow> int \<Rightarrow> exn + json" where
  "py_getitem v i =
     (case v of
        JList xs \<Rightarrow> (case py_index xs i of Some x \<Rightarrow> Inr x | None \<Rightarrow> Inl IndexError)
      | JStr s \<Rightarrow> (case py_index s i of Some c \<Rightarrow> Inr (JStr [c]) | None \<Rightarrow> Inl IndexError)
      | JObj d \<Rightarrow> Inl KeyError
      | _ \<Rightarrow> Inl TypeError)"

text \<open>
  \<^verbatim>\<open>int(v)\<close>. Parsing a string is left to the parameter \<open>int_of_str\<close> (\<open>None\<close> where
  Python raises \<^verbatim>\<open>ValueError\<close>); a float is truncated towards zero.
\<close>

definition py_int :: "(ustr \<Rightarrow> int option) \<Rightarrow> json \<Rightarrow> exn + int" where
  "py_int int_of_str v =
     (case v of
        JInt n \<Rightarrow> Inr n
      | JBool b \<Rightarrow> Inr (if b then 1 else 0)
      | JFloat f \<Rightarrow>
          (case f of
             Finite s m \<Rightarrow> Inr (if s then - \<lfloor>\<bar>m\<bar>\<rfloor> else \<lfloor>\<bar>m\<bar>\<rfloor>)
           | Infinity s \<Rightarrow> Inl OverflowError
           | NaN \<Rightarrow> Inl ValueError)
      | JStr s \<Rightarrow> (case int_of_str s of Some n \<Rightarrow> Inr n | None \<Rightarrow> Inl ValueError)
      | _ \<Rightarrow> Inl TypeError)"

text \<open>
  \<^verbatim>\<open>str(v)\<close>. The \<^verbatim>\<open>repr\<close> of floats, lists and dicts is left to the parameter \<open>repr\<close>.
\<close>

definition py_str :: "(json \<Rightarrow> ustr) \<Rightarrow> json \<Rightarrow> ustr" where
  "py_str repr v =
     (case v of
        JStr s \<Rightarrow> s
      | JInt n \<Rightarrow> str_int n
      | JBool b \<Rightarrow> (if b then u ''True'' else u ''False'')
      | JNull \<Rightarrow> u ''None''
      | _ \<Rightarrow> repr v)"

text \<open>\<^verbatim>\<open>len(v)\<close>; a dict counts its distinct keys.\<close>

definition py_len :: "json \<Rightarrow> exn + nat" where
  "py_len v =
     (case v of
        JList xs \<Rightarrow> Inr (length xs)
      | JStr s \<Rightarrow> Inr (length s)
      | JObj d \<Rightarrow> Inr (length (remdups (map fst d)))
      | _ \<Rightarrow> Inl TypeError)"

text \<open>
  The items a \<^verbatim>\<open>for\<close> loop sees: the elements of a list, the one-character strings of a
  string, the keys of a dict; the other objects are not iterable.
\<close>

definition py_iter :: "json \<Rightarrow> exn + json list" where
  "py_iter v =
     (case v of
        JList xs \<Rightarrow> Inr xs
      | JStr s \<Rightarrow> Inr (map (\<lambda>c. JStr [c]) s)
      | JObj d \<Rightarrow> Inr (map JStr (remdups (map fst d)))
      | _ \<Rightarrow> Inl TypeError)"

text \<open>
  The items of \<^verbatim>\<open>v[:n]\<close>: a list or a string can be sliced; slicing a dict or a scalar
  raises (a \<^verbatim>\<open>TypeError\<close> up to CPython 3.11).
\<close>

definition py_slice_to :: "nat \<Rightarrow> json \<Rightarrow> exn + json list" where
  "py_slice_to n v =
     (case v of
        JList xs \<Rightarrow> Inr (take n xs)
      | JStr s \<Rightarrow> Inr (map (\<lambda>c. JStr [c]) (take n s))
      | _ \<Rightarrow> Inl TypeError)"

section \<open>The API gateway: \<^verbatim>\<open>PostHogClient._query\<close>\<close>

text \<open>
  What one HTTP request does, as the code observes it: aiohttp raises while sending the
  request, or there is a response with a status, the outcome of \<^verbatim>\<open>await response.text()\<close>
  and the outcome of \<^verbatim>\<open>await response.json()\<close>. Either read can raise (an
  \<^verbatim>\<open>aiohttp.ClientError\<close> when the connection breaks, another exception when the body does
  not decode), and the code does only the read its branch asks for.
\<close>

datatype http_outcome = Raises exn | Response int "exn + ustr" "exn + json"

text \<open>
  The body of \<^verbatim>\<open>_query\<close>, one attempt. \<open>session\<close> tells whether \<^verbatim>\<open>self.session\<close> is set.
\<close>

definition query_attempt :: "bool \<Rightarrow> http_outcome \<Rightarrow> exn + json" where
  "query_attempt session out =
     (if \<not> session then
        Inl (RuntimeError (u ''Client not initialized. Use async context manager.''))
      else
        (case out of
           Raises e \<Rightarrow> Inl e
         | Response status body js \<Rightarrow>
             if status = 429 then Inl (PostHogAPIError (u ''Rate limited''))
             else if status \<ge> 400 then
               bindE body (\<lambda>tx.
                 Inl (PostHogAPIError (u ''API error '' @ str_int status @ u '': '' @ take 200 tx)))
             else js))"

text \<open>
  The decorator \<^verbatim>\<open>@retry(stop=stop_after_attempt(3), wait=wait_exponential(multiplier=1,
  min=2, max=10), retry=retry_if_exception_type(aiohttp.ClientError))\<close>, with the meaning
  tenacity gives to its three arguments. Attempts are numbered from 1. tenacity is a
  library, not code of this repository: these three definitions and the loop below
  follow the library's own source (\<^verbatim>\<open>stop.py\<close>, \<^verbatim>\<open>wait.py\<close>, \<^verbatim>\<open>retry.py\<close>, \<^verbatim>\<open>__init__.py\<close>).
\<close>

definition stop_after_attempt :: "nat \<Rightarrow> nat \<Rightarrow> bool" where
  "stop_after_attempt max_attempt_number attempt_number =
     (attempt_number \<ge> max_attempt_number)"

definition wait_exponential :: "int \<Rightarrow> int \<Rightarrow> int \<Rightarrow> nat \<Rightarrow> int" where
  "wait_exponential multiplier mn mx attempt_number =
     max (max 0 mn) (min (multiplier * 2 ^ (attempt_number - 1)) mx)"

definition retry_if_client_error :: "exn + 'a \<Rightarrow> bool" where
  "retry_if_client_error out = (case out of Inl (ClientError m) \<Rightarrow> True | _ \<Rightarrow> False)"

text \<open>
  tenacity's loop (\<^verbatim>\<open>AsyncRetrying.__call__\<close> around \<^verbatim>\<open>BaseRetrying.iter\<close>, with the
  default \<^verbatim>\<open>reraise=False\<close>): run the attempt; an outcome the retry predicate rejects is
  returned or re-raised as it is; otherwise, when the stop condition holds, a
  \<^verbatim>\<open>RetryError\<close> around the last outcome is raised; otherwise sleep and try again.
  The result is the outcome, the number of attempts made, and the sleeps in seconds.
\<close>

function retrying :: "(nat \<Rightarrow> exn + 'a) \<Rightarrow> nat \<Rightarrow> int list \<Rightarrow> (exn + 'a) \<times> nat \<times> int list" where
  "retrying attempt n slept =
     (let out = attempt n in
      if \<not> retry_if_client_error out then (out, n, slept)
      else if stop_after_attempt 3 n then
        (case out of Inl e \<Rightarrow> (Inl (RetryError e), n, slept) | Inr x \<Rightarrow> (out, n, slept))
      else retrying attempt (Suc n) (slept @ [wait_exponential 1 2 10 n]))"
  by pat_completeness auto
termination
  by (relation "measure (\<lambda>(attempt, n, slept). 3 - n)") (auto simp: stop_after_attempt_def)

declare retrying.simps [simp del]

text \<open>
  The decorated \<^verbatim>\<open>_query\<close>: \<open>net n\<close> is what the network does at the \<open>n\<close>-th request.
\<close>

definition query :: "bool \<Rightarrow> (nat \<Rightarrow> http_outcome) \<Rightarrow> (exn + json) \<times> nat \<times> int list" where
  "query session net = retrying (\<lambda>n. query_attempt session (net n)) 1 []"

section \<open>Pageviews: \<^verbatim>\<open>PostHogClient._fetch_pageviews\<close>\<close>

definition pageviews_time_filter :: "ustr \<Rightarrow> ustr \<Rightarrow> ustr" where
  "pageviews_time_filter date_from date_to =
     (if date_to = u ''now'' then u ''timestamp >= now() - INTERVAL 1 DAY''
      else u ''timestamp >= now() - INTERVAL 8 DAY AND timestamp < now() - INTERVAL 7 DAY'')"

text \<open>The query text of the f-string, line by line (code point 10 is the newline, 39 the quote).\<close>

definition pageviews_query_text :: "ustr \<Rightarrow> ustr" where
  "pageviews_query_text time_filter =
     [10] @ u ''                SELECT'' @
     [10] @ u ''                    properties.$current_url as page,'' @
     [10] @ u ''                    count() as views'' @
     [10] @ u ''                FROM events'' @
     [10] @ u ''                WHERE event = '' @ [39] @ u ''$pageview'' @ [39] @
     [10] @ u ''                  AND '' @ time_filter @
     [10] @ u ''                GROUP BY page'' @
     [10] @ u ''                ORDER BY views DESC'' @
     [10] @ u ''                LIMIT 10'' @
     [10] @ u ''            ''"

definition pageviews_query :: "ustr \<Rightarrow> ustr \<Rightarrow> json" where
  "pageviews_query date_from date_to =
     JObj [(u ''kind'', JStr (u ''HogQLQuery'')),
           (u ''query'', JStr (pageviews_query_text (pageviews_time_filter date_from date_to)))]"

text \<open>
  The list comprehension \<^verbatim>\<open>[(str(r[0])[:50], int(r[1])) for r in results[:5] if r[0]]\<close>
  over the items of the slice, stopping at the first exception.
\<close>

fun top_pages_rows :: "(ustr \<Rightarrow> int option) \<Rightarrow> (json \<Rightarrow> ustr) \<Rightarrow> json list \<Rightarrow> exn + (ustr \<times> int) list" where
  "top_pages_rows int_of_str repr [] = Inr []"
| "top_pages_rows int_of_str repr (r # rs) =
     bindE (py_getitem r 0) (\<lambda>url.
       if truthy url then
         bindE (py_getitem r 1) (\<lambda>v.
         bindE (py_int int_of_str v) (\<lambda>views.
         bindE (top_pages_rows int_of_str repr rs) (\<lambda>rest.
         Inr ((take 50 (py_str repr url), views) # rest))))
       else top_pages_rows int_of_str repr rs)"

text \<open>\<^verbatim>\<open>sum(int(r[1]) for r in results if len(r) > 1)\<close> over the items of \<^verbatim>\<open>results\<close>.\<close>

fun sum_views :: "(ustr \<Rightarrow> int option) \<Rightarrow> json list \<Rightarrow> exn + int" where
  "sum_views int_of_str [] = Inr 0"
| "sum_views int_of_str (r # rs) =
     bindE (py_len r) (\<lambda>n.
       if n > 1 then
         bindE (py_getitem r 1) (\<lambda>v.
         bindE (py_int int_of_str v) (\<lambda>views.
         bindE (sum_views int_of_str rs) (\<lambda>rest.
         Inr (views + rest))))
       else sum_views int_of_str rs)"

text \<open>The part of \<^verbatim>\<open>_fetch_pageviews\<close> after the query: \<^verbatim>\<open>(total_pageviews, top_pages)\<close>.\<close>

definition pageviews_of_result ::
  "(ustr \<Rightarrow> int option) \<Rightarrow> (json \<Rightarrow> ustr) \<Rightarrow> json \<Rightarrow> exn + (int \<times> (ustr \<times> int) list)" where
  "pageviews_of_result int_of_str repr result =
     bindE (py_get result (u ''results'') (JList [])) (\<lambda>results.
     bindE (py_slice_to 5 results) (\<lambda>first5.
     bindE (top_pages_rows int_of_str repr first5) (\<lambda>top_pages.
     bindE (py_iter results) (\<lambda>rows.
     bindE (sum_views int_of_str rows) (\<lambda>total_pageviews.
     Inr (total_pageviews, top_pages))))))"

text \<open>\<open>run_query\<close> is \<^verbatim>\<open>self._query(project_id, ...)\<close>.\<close>

definition fetch_pageviews ::
  "(ustr \<Rightarrow> int option) \<Rightarrow> (json \<Rightarrow> ustr) \<Rightarrow> (json \<Rightarrow> exn + json) \<Rightarrow> ustr \<Rightarrow> ustr
     \<Rightarrow> exn + (int \<times> (ustr \<times> int) list)" where
  "fetch_pageviews int_of_str repr run_query date_from date_to =
     bindE (run_query (pageviews_query date_from date_to)) (pageviews_of_result int_of_str repr)"

section \<open>Trend values: \<^verbatim>\<open>PostHogClient._extract_trend_value\<close>\<close>

text \<open>
  The body of the \<^verbatim>\<open>try\<close>, then the handler
  \<^verbatim>\<open>except (KeyError, IndexError, TypeError): return 0\<close>.
\<close>

definition trend_value_body :: "(ustr \<Rightarrow> int option) \<Rightarrow> json \<Rightarrow> exn + int" where
  "trend_value_body int_of_str result =
     bindE (py_get result (u ''results'') (JList [JObj []])) (\<lambda>results.
     bindE (py_getitem results 0) (\<lambda>first.
     bindE (py_get first (u ''data'') (JList [])) (\<lambda>data.
     if truthy data then
       bindE (py_getitem data (- 1)) (\<lambda>last_point. py_int int_of_str last_point)
     else Inr 0)))"

definition extract_trend_value :: "(ustr \<Rightarrow> int option) \<Rightarrow> json \<Rightarrow> exn + int" where
  "extract_trend_value int_of_str result =
     (case trend_value_body int_of_str result of
        Inl e \<Rightarrow> if e = KeyError \<or> e = IndexError \<or> e = TypeError then Inr 0 else Inl e
      | Inr v \<Rightarrow> Inr v)"

section \<open>Projects: \<^verbatim>\<open>PostHogProject\<close> and \<^verbatim>\<open>PostHogClient.discover_projects\<close>\<close>

text \<open>
  The dataclass of \<^verbatim>\<open>config.py\<close>. \<open>name\<close> holds whatever the JSON gave (the code does
  not check that it is a string).
\<close>

record PostHogProject =
  name :: json
  project_id :: ustr
  color :: int
  custom_events :: "ustr list"

definition PROJECT_COLORS :: "int list" where
  "PROJECT_COLORS = [3447003, 10181046, 15844367, 3066993, 15105570, 3426654, 16776960, 9807270]"

text \<open>
  The loop \<^verbatim>\<open>for i, project in enumerate(results)\<close>: \<open>i\<close> is the position in the API's
  list, \<open>projects\<close> the list built so far.
\<close>

fun discover_loop :: "(json \<Rightarrow> ustr) \<Rightarrow> nat \<Rightarrow> json list \<Rightarrow> PostHogProject list \<Rightarrow> exn + PostHogProject list" where
  "discover_loop repr i [] projects = Inr projects"
| "discover_loop repr i (project # rest) projects =
     bindE (py_get project (u ''id'') (JStr [])) (\<lambda>idv.
       let pid = py_str repr idv in
       bindE (py_get project (u ''name'') (JStr (u ''Project '' @ pid))) (\<lambda>nm.
         discover_loop repr (Suc i) rest
           (if pid \<noteq> [] then
              projects @ [\<lparr>name = nm, project_id = pid,
                           color = PROJECT_COLORS ! (i mod length PROJECT_COLORS),
                           custom_events = []\<rparr>]
            else projects)))"

text \<open>
  \<^verbatim>\<open>results = data.get("results", data) if isinstance(data, dict) else data\<close>, and the
  whole method on the outcome of the GET request.
\<close>

definition discover_results :: "json \<Rightarrow> json" where
  "discover_results data = (case data of JObj d \<Rightarrow> dict_get d (u ''results'') data | _ \<Rightarrow> data)"

definition projects_of_data :: "(json \<Rightarrow> ustr) \<Rightarrow> json \<Rightarrow> exn + PostHogProject list" where
  "projects_of_data repr data =
     bindE (py_iter (discover_results data)) (\<lambda>results. discover_loop repr 0 results [])"

definition discover_projects :: "(json \<Rightarrow> ustr) \<Rightarrow> bool \<Rightarrow> http_outcome \<Rightarrow> exn + PostHogProject list" where
  "discover_projects repr session out =
     (if \<not> session then
        Inl (RuntimeError (u ''Client not initialized. Use async context manager.''))
      else
        (case out of
           Raises e \<Rightarrow> Inl e
         | Response status body js \<Rightarrow>
             if status \<ge> 400 then
               bindE body (\<lambda>tx.
                 Inl (PostHogAPIError
                   (u ''Failed to list projects: '' @ str_int status @ u '' - '' @ take 200 tx)))
             else bindE js (projects_of_data repr)))"

section \<open>The driver: the collection loop of \<^verbatim>\<open>main\<close>\<close>

text \<open>
  \<^verbatim>\<open>str(e)\<close> of a caught exception: the message where the code built the exception,
  the parameter \<open>other\<close> elsewhere.
\<close>

definition str_exn :: "(exn \<Rightarrow> ustr) \<Rightarrow> exn \<Rightarrow> ustr" where
  "str_exn other e =
     (case e of
        PostHogAPIError m \<Rightarrow> m
      | ClientError m \<Rightarrow> m
      | RuntimeError m \<Rightarrow> m
      | OtherException m \<Rightarrow> m
      | _ \<Rightarrow> other e)"

definition is_Exception :: "exn \<Rightarrow> bool" where
  "is_Exception e = (case e of BaseExit m \<Rightarrow> False | _ \<Rightarrow> True)"

text \<open>
  The loop \<^verbatim>\<open>for project in projects\<close> with its \<^verbatim>\<open>try\<close>: \<open>fetch\<close> is
  \<^verbatim>\<open>posthog.fetch_project_metrics\<close>, \<open>results\<close> and \<open>errors\<close> are the two lists. Both
  handlers (\<^verbatim>\<open>except PostHogAPIError\<close>, \<^verbatim>\<open>except Exception\<close>) append \<^verbatim>\<open>(project, str(e))\<close>;
  an exception that is no \<^verbatim>\<open>Exception\<close> leaves the loop.
\<close>

fun main_loop ::
  "(exn \<Rightarrow> ustr) \<Rightarrow> (PostHogProject \<Rightarrow> exn + 'm) \<Rightarrow> PostHogProject list
     \<Rightarrow> (PostHogProject \<times> 'm) list \<Rightarrow> (PostHogProject \<times> ustr) list
     \<Rightarrow> exn + ((PostHogProject \<times> 'm) list \<times> (PostHogProject \<times> ustr) list)" where
  "main_loop other fetch [] results errors = Inr (results, errors)"
| "main_loop other fetch (project # rest) results errors =
     (case fetch project of
        Inr metrics \<Rightarrow> main_loop other fetch rest (results @ [(project, metrics)]) errors
      | Inl e \<Rightarrow>
          if is_Exception e then
            main_loop other fetch rest results (errors @ [(project, str_exn other e)])
          else Inl e)"

section \<open>The notifier: \<^verbatim>\<open>DiscordClient._split_message\<close>\<close>

text \<open>\<^verbatim>\<open>message.split("\n")\<close>: the lines between the newlines (code point 10).\<close>

fun split_nl :: "ustr \<Rightarrow> ustr list" where
  "split_nl [] = [[]]"
| "split_nl (c # cs) =
     (if c = 10 then [] # split_nl cs
      else (case split_nl cs of [] \<Rightarrow> [[c]] | l # ls \<Rightarrow> (c # l) # ls))"

text \<open>
  \<^verbatim>\<open>str.rstrip()\<close> removes the trailing characters that \<^verbatim>\<open>str.isspace\<close> accepts.
\<close>

definition is_space :: "nat \<Rightarrow> bool" where
  "is_space c =
     ((9 \<le> c \<and> c \<le> 13) \<or> (28 \<le> c \<and> c \<le> 32) \<or> c = 133 \<or> c = 160 \<or> c = 5760
      \<or> (8192 \<le> c \<and> c \<le> 8202) \<or> c = 8232 \<or> c = 8233 \<or> c = 8239 \<or> c = 8287 \<or> c = 12288)"

definition rstrip :: "ustr \<Rightarrow> ustr" where
  "rstrip s = rev (dropWhile is_space (rev s))"

text \<open>The loop \<^verbatim>\<open>for line in lines\<close> and the final flush of \<^verbatim>\<open>current_chunk\<close>.\<close>

fun split_loop :: "int \<Rightarrow> ustr list \<Rightarrow> ustr \<Rightarrow> ustr list \<Rightarrow> ustr list" where
  "split_loop max_length [] current_chunk chunks =
     (if current_chunk \<noteq> [] then chunks @ [rstrip current_chunk] else chunks)"
| "split_loop max_length (line # lines) current_chunk chunks =
     (if int (length current_chunk) + int (length line) + 1 > max_length then
        split_loop max_length lines (line @ [10])
          (if current_chunk \<noteq> [] then chunks @ [rstrip current_chunk] else chunks)
      else split_loop max_length lines (current_chunk @ line @ [10]) chunks)"

definition split_message :: "ustr \<Rightarrow> int \<Rightarrow> ustr list" where
  "split_message message max_length =
     (if int (length message) \<le> max_length then [message]
      else split_loop max_length (split_nl message) [] [])"

section \<open>Float arithmetic\<close>

text \<open>
  Python's \<^verbatim>\<open>float\<close> is the IEEE 754 binary64 format: 53 significant bits, exponents from
  \<open>-1022\<close> to \<open>1023\<close>, results rounded to the nearest representable value, ties to the
  even significand. \<open>round_half_even\<close> rounds a rational to the nearest integer, ties to
  even; \<open>floor_log2 q\<close> is the exponent \<open>e\<close> with \<open>2 ^ e \<le> q < 2 ^ (e + 1)\<close>;
  \<open>round_double q\<close> rounds a magnitude to the grid of spacing \<open>2 ^ (e - 52)\<close> of its
  binade (the subnormal grid below \<open>2 ^ -1022\<close>), and is \<open>None\<close> when the rounded value
  reaches \<open>2 ^ 1024\<close>.
\<close>

definition round_half_even :: "rat \<Rightarrow> int" where
  "round_half_even x =
     (let f = \<lfloor>x\<rfloor>; d = x - of_int f
      in if d < 1 / 2 then f else if 1 / 2 < d then f + 1 else if even f then f else f + 1)"

definition floor_log2 :: "rat \<Rightarrow> int" where
  "floor_log2 q =
     (let (a, b) = quotient_of q; k = bitlen a - bitlen b
      in if 2 powi k \<le> q then k else k - 1)"

definition round_double :: "rat \<Rightarrow> rat option" where
  "round_double q =
     (if q = 0 then Some 0
      else
        let e = max (floor_log2 q) (- 1022);
            ulp = 2 powi (e - 52);
            r = of_int (round_half_even (q / ulp)) * ulp
        in if 2 powi 1024 \<le> r then None else Some r)"

text \<open>
  \<^verbatim>\<open>a / b\<close> on two \<^verbatim>\<open>int\<close>s: the correctly rounded quotient, \<^verbatim>\<open>OverflowError\<close> when it is
  too large for a float; a zero quotient is negative when \<open>b\<close> is.
\<close>

definition int_truediv :: "int \<Rightarrow> int \<Rightarrow> exn + pyfloat" where
  "int_truediv a b =
     (if b = 0 then Inl ZeroDivisionError
      else
        (case round_double \<bar>of_int a / of_int b\<bar> of
           None \<Rightarrow> Inl OverflowError
         | Some m \<Rightarrow> Inr (Finite ((a < 0) \<noteq> (b < 0)) m)))"

text \<open>\<^verbatim>\<open>x * y\<close> on two floats; an overflow gives an infinity.\<close>

fun float_mul :: "pyfloat \<Rightarrow> pyfloat \<Rightarrow> pyfloat" where
  "float_mul (Finite s m) (Finite t n) =
     (case round_double (\<bar>m\<bar> * \<bar>n\<bar>) of
        None \<Rightarrow> Infinity (s \<noteq> t)
      | Some r \<Rightarrow> Finite (s \<noteq> t) r)"
| "float_mul (Finite s m) (Infinity t) = (if m = 0 then NaN else Infinity (s \<noteq> t))"
| "float_mul (Infinity s) (Finite t n) = (if n = 0 then NaN else Infinity (s \<noteq> t))"
| "float_mul (Infinity s) (Infinity t) = Infinity (s \<noteq> t)"
| "float_mul NaN y = NaN"
| "float_mul x NaN = NaN"

text \<open>
  The float of an \<^verbatim>\<open>int\<close> that a float holds exactly (as 100 and 1 are), the test
  \<^verbatim>\<open>abs(x) < k\<close>, and the format \<^verbatim>\<open>f"{x:.0f}"\<close>: the value rounded to an integer, ties to
  even, with the sign of the float (so \<^verbatim>\<open>-0.4\<close> prints as \<^verbatim>\<open>-0\<close>).
\<close>

definition float_of_small_int :: "int \<Rightarrow> pyfloat" where
  "float_of_small_int k = Finite (k < 0) \<bar>of_int k\<bar>"

definition float_abs_lt :: "pyfloat \<Rightarrow> int \<Rightarrow> bool" where
  "float_abs_lt x k =
     (case x of Finite s m \<Rightarrow> \<bar>m\<bar> < of_int k | Infinity s \<Rightarrow> False | NaN \<Rightarrow> False)"

definition format_f0 :: "pyfloat \<Rightarrow> ustr" where
  "format_f0 x =
     (case x of
        Finite s m \<Rightarrow> (if s then u ''-'' else []) @ digits (nat (round_half_even \<bar>m\<bar>))
      | Infinity s \<Rightarrow> (if s then u ''-inf'' else u ''inf'')
      | NaN \<Rightarrow> u ''nan'')"

section \<open>Formatting: \<^verbatim>\<open>format_number\<close> and \<^verbatim>\<open>format_change\<close>\<close>

text \<open>
  \<^verbatim>\<open>f"{n:,}"\<close>: the decimal digits in groups of three from the right, separated by
  commas (code point 44), after the sign.
\<close>

fun commas_rev :: "ustr \<Rightarrow> ustr" where
  "commas_rev (a # b # c # d # rest) = a # b # c # 44 # commas_rev (d # rest)"
| "commas_rev ds = ds"

definition format_number :: "int \<Rightarrow> ustr" where
  "format_number n =
     (if n < 0 then u ''-'' else []) @ rev (commas_rev (rev (digits (nat \<bar>n\<bar>))))"

text \<open>
  \<^verbatim>\<open>format_change\<close>; the arrows are the code points 8596 (left right arrow), 8593
  (upwards arrow) and 8595 (downwards arrow).
\<close>

definition format_change :: "int \<Rightarrow> int option \<Rightarrow> exn + ustr" where
  "format_change current previous =
     (case previous of
        None \<Rightarrow> Inr (format_number current)
      | Some prev \<Rightarrow>
          if prev = 0 then Inr (format_number current)
          else
            let change = current - prev in
            bindE (int_truediv change prev) (\<lambda>ratio.
              let pct = float_mul ratio (float_of_small_int 100);
                  arrow = (if float_abs_lt pct 1 then [8596]
                           else if change > 0 then [8593] else [8595]);
                  sign = (if float_abs_lt pct 1 then []
                          else if change > 0 then u ''+'' else [])
              in Inr (format_number current @ u '' '' @ arrow @ u '' '' @ sign
                        @ format_f0 pct @ u ''%'')))"

section \<open>Reading aids for the statements\<close>

text \<open>
  The fields of one row of a tabular response, read the way the code reads them
  (\<^verbatim>\<open>r[0]\<close>, \<^verbatim>\<open>int(r[1])\<close>, \<^verbatim>\<open>len(r)\<close>), with a default where the code would raise; and the
  rows the code iterates over.
\<close>

definition row_url :: "json \<Rightarrow> json" where
  "row_url r = (case py_getitem r 0 of Inr v \<Rightarrow> v | Inl e \<Rightarrow> JNull)"

definition row_views :: "(ustr \<Rightarrow> int option) \<Rightarrow> json \<Rightarrow> int" where
  "row_views int_of_str r =
     (case bindE (py_getitem r 1) (py_int int_of_str) of Inr n \<Rightarrow> n | Inl e \<Rightarrow> 0)"

definition row_len :: "json \<Rightarrow> nat" where
  "row_len r = (case py_len r of Inr n \<Rightarrow> n | Inl e \<Rightarrow> 0)"

definition result_rows :: "json \<Rightarrow> json list" where
  "result_rows result =
     (case bindE (py_get result (u ''results'') (JList [])) py_iter of
        Inr rows \<Rightarrow> rows | Inl e \<Rightarrow> [])"

text \<open>
  The specification's wording of the top pages, for comparison with the code: the first
  5 of the rows whose URL field is non-empty.
\<close>

definition top_pages_spec :: "(ustr \<Rightarrow> int option) \<Rightarrow> (json \<Rightarrow> ustr) \<Rightarrow> json list \<Rightarrow> (ustr \<times> int) list" where
  "top_pages_spec int_of_str repr rows =
     map (\<lambda>r. (take 50 (py_str repr (row_url r)), row_views int_of_str r))
       (take 5 (filter (\<lambda>r. truthy (row_url r)) rows))"

text \<open>
  The id and the project that one pass of the discovery loop computes from a dict entry
  at position \<open>i\<close> of the API's list.
\<close>

definition entry_id :: "(json \<Rightarrow> ustr) \<Rightarrow> (ustr \<times> json) list \<Rightarrow> ustr" where
  "entry_id repr d = py_str repr (dict_get d (u ''id'') (JStr []))"

definition entry_project :: "(json \<Rightarrow> ustr) \<Rightarrow> nat \<Rightarrow> (ustr \<times> json) list \<Rightarrow> PostHogProject" where
  "entry_project repr i d =
     \<lparr>name = dict_get d (u ''name'') (JStr (u ''Project '' @ entry_id repr d)),
      project_id = entry_id repr d,
      color = PROJECT_COLORS ! (i mod 8),
      custom_events = []\<rparr>"

text \<open>The lines of a chunk put together again, each with its newline.\<close>

definition unlines :: "ustr list \<Rightarrow> ustr" where
  "unlines ls = concat (map (\<lambda>l. l @ [10]) ls)"

section \<open>The gateway: retries and error statuses\<close>

lemma u_Nil [simp]: "u [] = []" by (simp add: u_def)

lemma bindE_Inr_iff: "bindE m f = Inr y \<longleftrightarrow> (\<exists>x. m = Inr x \<and> f x = Inr y)"
  by (cases m) (simp_all add: bindE_def)

lemma bindE_simps [simp]: "bindE (Inl e) f = Inl e" "bindE (Inr x) f = f x"
  by (simp_all add: bindE_def)

lemma retry_if_client_error_simps [simp]:
  "retry_if_client_error (Inl (ClientError m)) = True"
  "retry_if_client_error (Inl (PostHogAPIError m)) = False"
  "retry_if_client_error (Inl (RuntimeError m)) = False"
  "retry_if_client_error (Inr x) = False"
  by (simp_all add: retry_if_client_error_def)

lemma retry_if_client_error_iff:
  "retry_if_client_error out \<longleftrightarrow> (\<exists>m. out = Inl (ClientError m))"
  by (auto simp: retry_if_client_error_def split: sum.splits exn.splits)

lemma wait_exponential_2_10: "wait_exponential 1 2 10 1 = 2" "wait_exponential 1 2 10 2 = 2"
  by (simp_all add: wait_exponential_def)

lemma wait_exponential_bounds: "mn \<le> mx \<Longrightarrow> 0 \<le> mn \<Longrightarrow> mn \<le> wait_exponential k mn mx n \<and> wait_exponential k mn mx n \<le> mx"
  by (auto simp: wait_exponential_def)

lemma retrying_at_3:
  "retrying a 3 sl =
     (if \<not> retry_if_client_error (a 3) then (a 3, 3, sl)
      else (case a 3 of Inl e \<Rightarrow> (Inl (RetryError e), 3, sl) | Inr x \<Rightarrow> (a 3, 3, sl)))"
  by (subst retrying.simps) (simp add: Let_def stop_after_attempt_def)

lemma retrying_at_2:
  "retrying a 2 sl =
     (if \<not> retry_if_client_error (a 2) then (a 2, 2, sl) else retrying a 3 (sl @ [2]))"
proof -
  have s3: "Suc 2 = 3" by simp
  show ?thesis
    by (subst retrying.simps) (simp add: Let_def stop_after_attempt_def wait_exponential_def s3)
qed

lemma retrying_at_1:
  "retrying a 1 sl =
     (if \<not> retry_if_client_error (a 1) then (a 1, 1, sl) else retrying a 2 (sl @ [2]))"
proof -
  have s2: "Suc 1 = 2" by simp
  show ?thesis
    by (subst retrying.simps) (simp add: Let_def stop_after_attempt_def wait_exponential_def s2 del: One_nat_def)
qed

lemma retrying_unfold:
  "retrying a 1 [] =
     (if \<not> retry_if_client_error (a 1) then (a 1, 1, [])
      else if \<not> retry_if_client_error (a 2) then (a 2, 2, [2])
      else if \<not> retry_if_client_error (a 3) then (a 3, 3, [2, 2])
      else (case a 3 of Inl e \<Rightarrow> (Inl (RetryError e), 3, [2, 2]) | Inr x \<Rightarrow> (a 3, 3, [2, 2])))"
  by (simp add: retrying_at_1 retrying_at_2 retrying_at_3 del: One_nat_def)

lemma retrying_policy:
  assumes q: "retrying a 1 [] = (out, n, slept)"
  shows "1 \<le> n \<and> n \<le> 3"
    and "\<forall>k. 1 \<le> k \<and> k < n \<longrightarrow> (\<exists>m. a k = Inl (ClientError m))"
    and "(\<forall>m. a n \<noteq> Inl (ClientError m)) \<longrightarrow> out = a n"
    and "\<forall>m. a n = Inl (ClientError m) \<longrightarrow> n = 3 \<and> out = Inl (RetryError (ClientError m))"
    and "slept = map (wait_exponential 1 2 10) [1..<n]"
    and "\<forall>w \<in> set slept. 2 \<le> w \<and> w \<le> 10"
proof -
  have w: "map (wait_exponential 1 2 10) [1..<2] = [2]" "map (wait_exponential 1 2 10) [1..<3] = [2, 2]"
    by (simp_all add: wait_exponential_def upt_rec numeral_2_eq_2 numeral_3_eq_3)
  have lt2: "\<And>k::nat. 1 \<le> k \<and> k < 2 \<longleftrightarrow> k = 1" by auto
  have lt3: "\<And>k::nat. 1 \<le> k \<and> k < 3 \<longleftrightarrow> k = 1 \<or> k = 2" by auto
  consider (one) "\<not> retry_if_client_error (a 1)"
    | (two) "retry_if_client_error (a 1)" "\<not> retry_if_client_error (a 2)"
    | (three) "retry_if_client_error (a 1)" "retry_if_client_error (a 2)" "\<not> retry_if_client_error (a 3)"
    | (four) "retry_if_client_error (a 1)" "retry_if_client_error (a 2)" "retry_if_client_error (a 3)"
    by blast
  then have "(1 \<le> n \<and> n \<le> 3)
       \<and> (\<forall>k. 1 \<le> k \<and> k < n \<longrightarrow> (\<exists>m. a k = Inl (ClientError m)))
       \<and> ((\<forall>m. a n \<noteq> Inl (ClientError m)) \<longrightarrow> out = a n)
       \<and> (\<forall>m. a n = Inl (ClientError m) \<longrightarrow> n = 3 \<and> out = Inl (RetryError (ClientError m)))
       \<and> slept = map (wait_exponential 1 2 10) [1..<n]
       \<and> (\<forall>w \<in> set slept. 2 \<le> w \<and> w \<le> 10)" (is ?all)
  proof cases
    case one
    with q have "out = a 1" "n = 1" "slept = []" by (simp_all add: retrying_unfold del: One_nat_def)
    with one show ?thesis by (auto simp: retry_if_client_error_iff)
  next
    case two
    with q have "out = a 2" "n = 2" "slept = [2]" by (simp_all add: retrying_unfold del: One_nat_def)
    with two show ?thesis by (auto simp: retry_if_client_error_iff w lt2 simp del: One_nat_def)
  next
    case three
    with q have "out = a 3" "n = 3" "slept = [2, 2]" by (simp_all add: retrying_unfold del: One_nat_def)
    with three show ?thesis by (auto simp: retry_if_client_error_iff w lt3 simp del: One_nat_def)
  next
    case four
    then obtain m where m: "a 3 = Inl (ClientError m)" by (auto simp: retry_if_client_error_iff)
    with q four have "out = Inl (RetryError (ClientError m))" "n = 3" "slept = [2, 2]"
      by (simp_all add: retrying_unfold del: One_nat_def)
    with four m show ?thesis by (auto simp: retry_if_client_error_iff w lt3 simp del: One_nat_def)
  qed
  then show "1 \<le> n \<and> n \<le> 3"
    and "\<forall>k. 1 \<le> k \<and> k < n \<longrightarrow> (\<exists>m. a k = Inl (ClientError m))"
    and "(\<forall>m. a n \<noteq> Inl (ClientError m)) \<longrightarrow> out = a n"
    and "\<forall>m. a n = Inl (ClientError m) \<longrightarrow> n = 3 \<and> out = Inl (RetryError (ClientError m))"
    and "slept = map (wait_exponential 1 2 10) [1..<n]"
    and "\<forall>w \<in> set slept. 2 \<le> w \<and> w \<le> 10"
    by blast+
qed


lemma query_attempt_rate_limited:
  "query_attempt True (Response 429 body js) = Inl (PostHogAPIError (u ''Rate limited''))"
  by (simp add: query_attempt_def)

lemma query_attempt_http_error:
  "400 \<le> status \<Longrightarrow> status \<noteq> 429 \<Longrightarrow>
   query_attempt True (Response status (Inr tx) js) =
     Inl (PostHogAPIError (u ''API error '' @ str_int status @ u '': '' @ take 200 tx))"
  by (simp add: query_attempt_def)

lemma query_attempt_raises_api_error:
  "400 \<le> status \<Longrightarrow> status = 429 \<or> (\<exists>tx. body = Inr tx) \<Longrightarrow>
   \<exists>m. query_attempt True (Response status body js) = Inl (PostHogAPIError m)"
  by (auto simp: query_attempt_def)

lemma query_attempt_body_unreadable:
  "400 \<le> status \<Longrightarrow> status \<noteq> 429 \<Longrightarrow>
   query_attempt True (Response status (Inl e) js) = Inl e"
  by (simp add: query_attempt_def)

text \<open>
  Claim C2, as the code has it, on the model of tenacity's loop. A call of the decorated
  \<^verbatim>\<open>_query\<close> makes between 1 and 3 attempts. Every attempt but the last failed with an
  \<^verbatim>\<open>aiohttp.ClientError\<close>: nothing else is retried. A last attempt that did not fail with a
  \<^verbatim>\<open>ClientError\<close> is the outcome of the call as it is. An attempt that raises a
  \<^verbatim>\<open>PostHogAPIError\<close> is the last, and its error is the outcome: that is so for a response
  with status 429, and for a response with another status of 400 or more whose body
  could be read. When reading the body of such a response fails with a \<^verbatim>\<open>ClientError\<close>, the
  attempt fails with that error, which is retried as any other. A last attempt that
  failed with a \<^verbatim>\<open>ClientError\<close> is the third, and the call then raises tenacity's
  \<^verbatim>\<open>RetryError\<close> around that error, not the error itself. The sleeps between attempts are
  \<open>max 2 (min (1 * 2 ^ (k - 1)) 10)\<close> seconds after attempt \<open>k\<close>, each between 2 and 10.
\<close>

theorem query_retry_policy:
  assumes "query session net = (out, n, slept)"
  shows "1 \<le> n \<and> n \<le> 3
       \<and> (\<forall>k. 1 \<le> k \<and> k < n \<longrightarrow> (\<exists>m. query_attempt session (net k) = Inl (ClientError m)))
       \<and> ((\<forall>m. query_attempt session (net n) \<noteq> Inl (ClientError m)) \<longrightarrow> out = query_attempt session (net n))
       \<and> (\<forall>k m. 1 \<le> k \<and> k \<le> n \<and> query_attempt session (net k) = Inl (PostHogAPIError m)
             \<longrightarrow> k = n \<and> out = Inl (PostHogAPIError m))
       \<and> (\<forall>k status body js. 1 \<le> k \<and> k \<le> n \<and> session \<and> net k = Response status body js
               \<and> 400 \<le> status \<and> (status = 429 \<or> (\<exists>tx. body = Inr tx))
             \<longrightarrow> k = n \<and> (\<exists>m. out = Inl (PostHogAPIError m)))
       \<and> (\<forall>k status m js. session \<and> net k = Response status (Inl (ClientError m)) js
               \<and> 400 \<le> status \<and> status \<noteq> 429
             \<longrightarrow> query_attempt session (net k) = Inl (ClientError m))
       \<and> (\<forall>m. query_attempt session (net n) = Inl (ClientError m) \<longrightarrow> n = 3 \<and> out = Inl (RetryError (ClientError m)))
       \<and> slept = map (wait_exponential 1 2 10) [1..<n]
       \<and> (\<forall>w \<in> set slept. 2 \<le> w \<and> w \<le> 10)"
proof -
  let ?a = "\<lambda>k. query_attempt session (net k)"
  have r: "retrying ?a 1 [] = (out, n, slept)"
    using assms by (simp add: query_def)
  note p = retrying_policy [OF r]
  have api: "k = n \<and> out = Inl (PostHogAPIError m)"
    if h: "1 \<le> k" "k \<le> n" "?a k = Inl (PostHogAPIError m)" for k m
  proof -
    have "\<not> k < n"
    proof
      assume "k < n"
      with p(2) h(1) obtain m' where "?a k = Inl (ClientError m')" by blast
      with h(3) show False by simp
    qed
    with h(2) have kn: "k = n" by simp
    with h(3) have "\<forall>m'. ?a n \<noteq> Inl (ClientError m')" by simp
    with p(3) have "out = ?a n" by blast
    with kn h(3) show ?thesis by simp
  qed
  have http: "k = n \<and> (\<exists>m. out = Inl (PostHogAPIError m))"
    if h: "1 \<le> k" "k \<le> n" "session" "net k = Response status body js" "400 \<le> status"
      "status = 429 \<or> (\<exists>tx. body = Inr tx)"
    for k status body js
  proof -
    from h(3-6) obtain m where m: "?a k = Inl (PostHogAPIError m)"
      using query_attempt_raises_api_error [of status body js] by auto
    from api [OF h(1) h(2) m] show ?thesis by blast
  qed
  have h4: "\<forall>k m. 1 \<le> k \<and> k \<le> n \<and> ?a k = Inl (PostHogAPIError m)
             \<longrightarrow> k = n \<and> out = Inl (PostHogAPIError m)"
    using api by blast
  have h5: "\<forall>k status body js. 1 \<le> k \<and> k \<le> n \<and> session \<and> net k = Response status body js
               \<and> 400 \<le> status \<and> (status = 429 \<or> (\<exists>tx. body = Inr tx))
             \<longrightarrow> k = n \<and> (\<exists>m. out = Inl (PostHogAPIError m))"
    using http by blast
  have h6: "\<forall>k status m js. session \<and> net k = Response status (Inl (ClientError m)) js
               \<and> 400 \<le> status \<and> status \<noteq> 429
             \<longrightarrow> ?a k = Inl (ClientError m)"
    by (simp add: query_attempt_body_unreadable)
  show ?thesis
    using p(1) p(2) p(3) h4 h5 h6 p(4) p(5) p(6) by (intro conjI) (simp_all only: simp_thms)
qed

theorem query_retry_policy_witness:
  "query True (\<lambda>n. if n = 1 then Raises (ClientError (u ''reset''))
                    else Response 503 (Inr (u ''busy'')) (Inl ValueError))
     = (Inl (PostHogAPIError (u ''API error 503: busy'')), 2, [2])
   \<and> (1::nat) \<le> 2 \<and> (2::nat) \<le> 3
   \<and> [2] = map (wait_exponential 1 2 10) [1..<2]"
proof -
  let ?net = "\<lambda>n::nat. if n = 1 then Raises (ClientError (u ''reset''))
                    else Response 503 (Inr (u ''busy'')) (Inl ValueError)"
  have q: "query True ?net = (Inl (PostHogAPIError (u ''API error 503: busy'')), 2, [2])"
    by (simp add: query_def retrying_unfold query_attempt_def str_int_def digits.simps u_def
        del: One_nat_def)
  from query_retry_policy [OF q] q show ?thesis by simp
qed

text \<open>
  Three connection failures in a row: the caller gets a \<^verbatim>\<open>RetryError\<close>, not the last
  \<^verbatim>\<open>ClientError\<close>. And three responses with status 503 whose body cannot be read: the
  request is made three times.
\<close>

theorem query_exhausted_counterexample:
  "fst (query True (\<lambda>n. Raises (ClientError (u ''connection reset''))))
     = Inl (RetryError (ClientError (u ''connection reset'')))
   \<and> fst (query True (\<lambda>n. Raises (ClientError (u ''connection reset''))))
     \<noteq> Inl (ClientError (u ''connection reset''))
   \<and> query True (\<lambda>n. Response 503 (Inl (ClientError (u ''payload''))) (Inr JNull))
     = (Inl (RetryError (ClientError (u ''payload''))), 3, [2, 2])"
  by (simp add: query_def retrying_unfold query_attempt_def del: One_nat_def)

lemma rate_limited_ne: "u ''Rate limited'' \<noteq> u ''API error '' @ rest"
  by (simp add: u_def)

text \<open>
  Claim C8, as the code has it. A response with status 429 makes the call fail on its
  first attempt, with no retry, with \<^verbatim>\<open>PostHogAPIError("Rate limited")\<close>; the body is not
  read. A response with another status of 400 or more whose body can be read makes the
  call fail on its first attempt, with no retry, with a \<^verbatim>\<open>PostHogAPIError\<close> whose message is
  \<^verbatim>\<open>API error\<close>, the status in decimal and at most the first 200 characters of the body;
  the rate-limit message differs from every message of this kind. When reading the body
  raises, the attempt raises that exception instead, with neither status nor body: the
  call fails with it at once unless it is a \<^verbatim>\<open>ClientError\<close>, which is retried.
\<close>

theorem query_http_error_status:
  assumes "400 \<le> status" and "net 1 = Response status body js"
  shows "(status = 429 \<longrightarrow>
            query True net = (Inl (PostHogAPIError (u ''Rate limited'')), 1, []))
       \<and> (\<forall>tx. status \<noteq> 429 \<and> body = Inr tx \<longrightarrow>
            query True net =
              (Inl (PostHogAPIError (u ''API error '' @ str_int status @ u '': '' @ take 200 tx)), 1, [])
            \<and> length (take 200 tx) \<le> 200
            \<and> u ''Rate limited'' \<noteq> u ''API error '' @ str_int status @ u '': '' @ take 200 tx)
       \<and> (\<forall>e. status \<noteq> 429 \<and> body = Inl e \<longrightarrow>
            query_attempt True (net 1) = Inl e
            \<and> ((\<forall>m. e \<noteq> ClientError m) \<longrightarrow> query True net = (Inl e, 1, [])))"
proof -
  have rate: "query True net = (Inl (PostHogAPIError (u ''Rate limited'')), 1, [])"
    if "status = 429"
    using that assms(2)
    by (simp add: query_def retrying_unfold query_attempt_rate_limited del: One_nat_def)
  have api: "query True net =
              (Inl (PostHogAPIError (u ''API error '' @ str_int status @ u '': '' @ take 200 tx)), 1, [])
            \<and> length (take 200 tx) \<le> 200
            \<and> u ''Rate limited'' \<noteq> u ''API error '' @ str_int status @ u '': '' @ take 200 tx"
    if "status \<noteq> 429" "body = Inr tx" for tx
    using that assms
    by (simp add: query_def retrying_unfold query_attempt_http_error rate_limited_ne
        del: One_nat_def)
  have unread: "query_attempt True (net 1) = Inl e
            \<and> ((\<forall>m. e \<noteq> ClientError m) \<longrightarrow> query True net = (Inl e, 1, []))"
    if "status \<noteq> 429" "body = Inl e" for e
  proof -
    from that assms have a: "query_attempt True (net 1) = Inl e"
      by (simp add: query_attempt_body_unreadable)
    have "query True net = (Inl e, 1, [])" if "\<forall>m. e \<noteq> ClientError m"
    proof -
      from that have "\<not> retry_if_client_error (Inl e :: exn + json)"
        by (simp add: retry_if_client_error_iff)
      with a show ?thesis
        by (simp add: query_def retrying_unfold del: One_nat_def)
    qed
    with a show ?thesis by blast
  qed
  from rate api unread show ?thesis by blast
qed

theorem query_http_error_status_witness:
  "query True (\<lambda>n. Response 404 (Inr (u ''not found'')) (Inr JNull))
     = (Inl (PostHogAPIError (u ''API error 404: not found'')), 1, [])
   \<and> query True (\<lambda>n. Response 429 (Inr (u ''slow down'')) (Inr JNull))
     = (Inl (PostHogAPIError (u ''Rate limited'')), 1, [])
   \<and> query True (\<lambda>n. Response 500 (Inl ValueError) (Inr JNull)) = (Inl ValueError, 1, [])"
proof -
  have a: "(400::int) \<le> 404" and b: "(400::int) \<le> 429" and c: "(400::int) \<le> 500" by simp_all
  have s: "str_int 404 = u ''404''" by (simp add: str_int_def digits.simps u_def)
  have n1: "(\<lambda>n::nat. Response 404 (Inr (u ''not found'')) (Inr JNull)) 1
              = Response 404 (Inr (u ''not found'')) (Inr JNull)"
    and n2: "(\<lambda>n::nat. Response 429 (Inr (u ''slow down'')) (Inr JNull)) 1
              = Response 429 (Inr (u ''slow down'')) (Inr JNull)"
    and n3: "(\<lambda>n::nat. Response 500 (Inl ValueError) (Inr JNull)) 1
              = Response 500 (Inl ValueError) (Inr JNull)"
    by simp_all
  from query_http_error_status [OF a n1]
  have w1: "query True (\<lambda>n. Response 404 (Inr (u ''not found'')) (Inr JNull))
     = (Inl (PostHogAPIError (u ''API error 404: not found'')), 1, [])"
    by (simp add: s) (simp add: u_def)
  from query_http_error_status [OF b n2]
  have w2: "query True (\<lambda>n. Response 429 (Inr (u ''slow down'')) (Inr JNull))
     = (Inl (PostHogAPIError (u ''Rate limited'')), 1, [])"
    by simp
  from query_http_error_status [OF c n3]
  have w3: "query True (\<lambda>n. Response 500 (Inl ValueError) (Inr JNull)) = (Inl ValueError, 1, [])"
    by simp
  from w1 w2 w3 show ?thesis by blast
qed

text \<open>
  A response with status 500 whose body cannot be read, the connection failing each
  time: the request is made three times and the call ends with a \<^verbatim>\<open>RetryError\<close>, which
  carries neither the status nor the body and is no \<^verbatim>\<open>PostHogAPIError\<close>.
\<close>

theorem query_http_error_unreadable_counterexample:
  "query True (\<lambda>n. Response 500 (Inl (ClientError (u ''connection lost''))) (Inr JNull))
     = (Inl (RetryError (ClientError (u ''connection lost''))), 3, [2, 2])
   \<and> (\<forall>m. fst (query True (\<lambda>n. Response 500 (Inl (ClientError (u ''connection lost''))) (Inr JNull)))
          \<noteq> Inl (PostHogAPIError m))"
  by (simp add: query_def retrying_unfold query_attempt_def del: One_nat_def)

text \<open>
  Claim C9. Whenever \<^verbatim>\<open>date_to\<close> is not \<^verbatim>\<open>"now"\<close>, the pageview query carries the fixed
  filter from 8 days ago to 7 days ago, whatever \<^verbatim>\<open>date_from\<close> and \<^verbatim>\<open>date_to\<close> are; with
  \<^verbatim>\<open>date_to = "now"\<close> it carries the trailing 1-day filter, whatever \<^verbatim>\<open>date_from\<close> is.
\<close>

theorem pageviews_previous_window_hardcoded:
  "(date_to \<noteq> u ''now'' \<longrightarrow>
      pageviews_query date_from date_to =
        JObj [(u ''kind'', JStr (u ''HogQLQuery'')),
              (u ''query'', JStr (pageviews_query_text
                 (u ''timestamp >= now() - INTERVAL 8 DAY AND timestamp < now() - INTERVAL 7 DAY'')))])
   \<and> pageviews_query date_from (u ''now'') =
        JObj [(u ''kind'', JStr (u ''HogQLQuery'')),
              (u ''query'', JStr (pageviews_query_text (u ''timestamp >= now() - INTERVAL 1 DAY'')))]"
  by (simp add: pageviews_query_def pageviews_time_filter_def)

theorem pageviews_previous_window_hardcoded_witness:
  "u ''-30d'' \<noteq> u ''now''
   \<and> pageviews_query (u ''-60d'') (u ''-30d'') = pageviews_query (u ''-8d'') (u ''-7d'')
   \<and> pageviews_query (u ''-60d'') (u ''-30d'') \<noteq> pageviews_query (u ''-60d'') (u ''now'')"
proof -
  have a: "u ''-30d'' \<noteq> u ''now''" and b: "u ''-7d'' \<noteq> u ''now''" by (simp_all add: u_def)
  have c: "u ''timestamp >= now() - INTERVAL 8 DAY AND timestamp < now() - INTERVAL 7 DAY''
           \<noteq> u ''timestamp >= now() - INTERVAL 1 DAY''" by (simp add: u_def)
  from pageviews_previous_window_hardcoded [of "u ''-30d''" "u ''-60d''"]
       pageviews_previous_window_hardcoded [of "u ''-7d''" "u ''-8d''"] a b c
  show ?thesis by (simp add: pageviews_query_text_def)
qed

section \<open>Pageview extraction\<close>

lemma top_pages_rows_Inr:
  "top_pages_rows ios repr rs = Inr pages \<Longrightarrow>
   pages = map (\<lambda>r. (take 50 (py_str repr (row_url r)), row_views ios r))
           (filter (\<lambda>r. truthy (row_url r)) rs)"
proof (induction rs arbitrary: pages)
  case Nil
  then show ?case by simp
next
  case (Cons r rs)
  from Cons.prems obtain url where url: "py_getitem r 0 = Inr url"
    by (auto simp: bindE_Inr_iff)
  show ?case
  proof (cases "truthy url")
    case True
    with Cons.prems url obtain v n rest where
      v: "py_getitem r 1 = Inr v" and n: "py_int ios v = Inr n"
      and rest: "top_pages_rows ios repr rs = Inr rest"
      and pages: "pages = (take 50 (py_str repr url), n) # rest"
      by (auto simp: bindE_Inr_iff)
    from Cons.IH [OF rest] url v n True pages show ?thesis
      by (simp add: row_url_def row_views_def)
  next
    case False
    with Cons.prems url have "top_pages_rows ios repr rs = Inr pages" by simp
    from Cons.IH [OF this] url False show ?thesis by (simp add: row_url_def)
  qed
qed

lemma sum_views_Inr:
  "sum_views ios rs = Inr tot \<Longrightarrow>
   tot = sum_list (map (row_views ios) (filter (\<lambda>r. 1 < row_len r) rs))"
proof (induction rs arbitrary: tot)
  case Nil
  then show ?case by simp
next
  case (Cons r rs)
  from Cons.prems obtain n where len: "py_len r = Inr n"
    by (auto simp: bindE_Inr_iff)
  show ?case
  proof (cases "1 < n")
    case True
    with Cons.prems len obtain v k rest where
      v: "py_getitem r 1 = Inr v" and k: "py_int ios v = Inr k"
      and rest: "sum_views ios rs = Inr rest" and tot: "tot = k + rest"
      by (auto simp: bindE_Inr_iff)
    from Cons.IH [OF rest] len v k True tot show ?thesis
      by (simp add: row_len_def row_views_def)
  next
    case False
    with Cons.prems len have "sum_views ios rs = Inr tot" by simp
    from Cons.IH [OF this] len False show ?thesis by (simp add: row_len_def)
  qed
qed

lemma slice_iter:
  "py_slice_to n v = Inr first \<Longrightarrow> py_iter v = Inr rows \<Longrightarrow> first = take n rows"
  by (cases v) (auto simp: py_slice_to_def py_iter_def take_map)

lemma pageviews_of_result_Inr:
  assumes "pageviews_of_result ios repr result = Inr (tot, pages)"
  shows "pages = map (\<lambda>r. (take 50 (py_str repr (row_url r)), row_views ios r))
                 (filter (\<lambda>r. truthy (row_url r)) (take 5 (result_rows result)))"
    and "tot = sum_list (map (row_views ios) (filter (\<lambda>r. 1 < row_len r) (result_rows result)))"
proof -
  from assms obtain results first5 rows where
    g: "py_get result (u ''results'') (JList []) = Inr results"
    and s: "py_slice_to 5 results = Inr first5"
    and t: "top_pages_rows ios repr first5 = Inr pages"
    and i: "py_iter results = Inr rows"
    and v: "sum_views ios rows = Inr tot"
    unfolding pageviews_of_result_def by (auto simp: bindE_Inr_iff)
  have rr: "result_rows result = rows" by (simp add: result_rows_def g i)
  from slice_iter [OF s i] top_pages_rows_Inr [OF t] rr
  show "pages = map (\<lambda>r. (take 50 (py_str repr (row_url r)), row_views ios r))
                 (filter (\<lambda>r. truthy (row_url r)) (take 5 (result_rows result)))" by simp
  from sum_views_Inr [OF v] rr
  show "tot = sum_list (map (row_views ios) (filter (\<lambda>r. 1 < row_len r) (result_rows result)))" by simp
qed


lemma sorted_wrt_filter_take:
  "sorted_wrt P xs \<Longrightarrow> sorted_wrt P (filter Q (take n xs))"
  by (meson sorted_wrt_filter sorted_wrt_take)

text \<open>
  Claim C6, as the code has it. Whenever the pageview extraction returns, \<^verbatim>\<open>top_pages\<close>
  has at most 5 entries, and it lists, in the API's row order, the rows with a non-empty
  URL among the first 5 rows, each as its URL cut to 50 characters and its view count: so
  rows with equal views stay in the order the API gave them. The code does not sort: the
  view counts are non-increasing when those of the API's rows are.
\<close>

theorem top_pages_at_most_five_in_api_order:
  assumes "pageviews_of_result ios repr result = Inr (tot, pages)"
  shows "length pages \<le> 5
       \<and> pages = map (\<lambda>r. (take 50 (py_str repr (row_url r)), row_views ios r))
                   (filter (\<lambda>r. truthy (row_url r)) (take 5 (result_rows result)))
       \<and> map snd pages = map (row_views ios) (filter (\<lambda>r. truthy (row_url r)) (take 5 (result_rows result)))
       \<and> (sorted_wrt (\<lambda>a b. a \<ge> b) (map (row_views ios) (result_rows result))
            \<longrightarrow> sorted_wrt (\<lambda>a b. a \<ge> b) (map snd pages))"
proof -
  let ?rows = "result_rows result"
  have p: "pages = map (\<lambda>r. (take 50 (py_str repr (row_url r)), row_views ios r))
                 (filter (\<lambda>r. truthy (row_url r)) (take 5 ?rows))"
    by (rule pageviews_of_result_Inr(1) [OF assms])
  have len: "length pages \<le> 5"
  proof -
    have "length pages \<le> length (take 5 ?rows)"
      unfolding p length_map by (rule length_filter_le)
    also have "\<dots> \<le> 5" by simp
    finally show ?thesis .
  qed
  have views: "map snd pages = map (row_views ios) (filter (\<lambda>r. truthy (row_url r)) (take 5 ?rows))"
    unfolding p by (simp add: comp_def)
  have "sorted_wrt (\<lambda>a b. a \<ge> b) (map snd pages)"
    if "sorted_wrt (\<lambda>a b. a \<ge> b) (map (row_views ios) ?rows)"
  proof -
    from that have "sorted_wrt (\<lambda>r s. row_views ios r \<ge> row_views ios s) ?rows"
      by (simp add: sorted_wrt_map)
    then have "sorted_wrt (\<lambda>r s. row_views ios r \<ge> row_views ios s)
                 (filter (\<lambda>r. truthy (row_url r)) (take 5 ?rows))"
      by (rule sorted_wrt_filter_take)
    then show ?thesis unfolding views by (simp add: sorted_wrt_map)
  qed
  with len p views show ?thesis by blast
qed

theorem top_pages_at_most_five_in_api_order_witness:
  "pageviews_of_result (\<lambda>s. None) (\<lambda>v. [])
      (JObj [(u ''results'',
         JList [JList [JStr (u ''/a''), JInt 7], JList [JStr (u ''/b''), JInt 7], JList [JNull, JInt 2]])])
     = Inr (16, [(u ''/a'', 7), (u ''/b'', 7)])
   \<and> [(u ''/a'', 7::int), (u ''/b'', 7)]
     = map (\<lambda>r. (take 50 (py_str (\<lambda>v. []) (row_url r)), row_views (\<lambda>s. None) r))
         (filter (\<lambda>r. truthy (row_url r)) (take 5 (result_rows
            (JObj [(u ''results'',
               JList [JList [JStr (u ''/a''), JInt 7], JList [JStr (u ''/b''), JInt 7],
                      JList [JNull, JInt 2]])]))))
   \<and> length [(u ''/a'', 7::int), (u ''/b'', 7)] \<le> 5
   \<and> sorted_wrt (\<lambda>a b. a \<ge> b) (map snd [(u ''/a'', 7::int), (u ''/b'', 7)])"
proof -
  let ?res = "JObj [(u ''results'',
         JList [JList [JStr (u ''/a''), JInt 7], JList [JStr (u ''/b''), JInt 7], JList [JNull, JInt 2]])]"
  have e: "pageviews_of_result (\<lambda>s. None) (\<lambda>v. []) ?res = Inr (16, [(u ''/a'', 7), (u ''/b'', 7)])"
    by code_simp
  have h: "sorted_wrt (\<lambda>a b. a \<ge> b) (map (row_views (\<lambda>s. None)) (result_rows ?res))"
    by code_simp
  from top_pages_at_most_five_in_api_order [OF e] h
  have "[(u ''/a'', 7::int), (u ''/b'', 7)]
          = map (\<lambda>r. (take 50 (py_str (\<lambda>v. []) (row_url r)), row_views (\<lambda>s. None) r))
              (filter (\<lambda>r. truthy (row_url r)) (take 5 (result_rows ?res)))
      \<and> length [(u ''/a'', 7::int), (u ''/b'', 7)] \<le> 5
      \<and> sorted_wrt (\<lambda>a b. a \<ge> b) (map snd [(u ''/a'', 7::int), (u ''/b'', 7)])"
    by blast
  with e show ?thesis by blast
qed

text \<open>
  An API response whose rows are in increasing order of views: \<^verbatim>\<open>top_pages\<close> keeps that
  order, so it is not non-increasing.
\<close>

theorem top_pages_unsorted_counterexample:
  "pageviews_of_result (\<lambda>s. None) (\<lambda>v. [])
      (JObj [(u ''results'', JList [JList [JStr (u ''/a''), JInt 1], JList [JStr (u ''/b''), JInt 2]])])
     = Inr (3, [(u ''/a'', 1), (u ''/b'', 2)])
   \<and> \<not> sorted_wrt (\<lambda>a b. a \<ge> b) (map snd [(u ''/a'', 1::int), (u ''/b'', 2)])"
  by code_simp

text \<open>
  Claim C7, as the code has it. Whenever the pageview extraction returns, the top pages
  are the rows with a non-empty URL among the first 5 rows of the response (the slice
  is taken before the filter), each URL cut to at most 50 characters, and the total is
  the sum of the views of all rows with more than one field.
\<close>

theorem pageviews_first_five_rows_then_filter:
  assumes "pageviews_of_result ios repr result = Inr (tot, pages)"
  shows "pages = map (\<lambda>r. (take 50 (py_str repr (row_url r)), row_views ios r))
                   (filter (\<lambda>r. truthy (row_url r)) (take 5 (result_rows result)))
       \<and> (\<forall>p \<in> set pages. length (fst p) \<le> 50)
       \<and> tot = sum_list (map (row_views ios) (filter (\<lambda>r. 1 < row_len r) (result_rows result)))"
proof -
  note r = pageviews_of_result_Inr [OF assms]
  have "\<forall>p \<in> set pages. length (fst p) \<le> 50"
    unfolding r(1) by auto
  with r show ?thesis by blast
qed

theorem pageviews_first_five_rows_then_filter_witness:
  "pageviews_of_result (\<lambda>s. None) (\<lambda>v. [])
      (JObj [(u ''results'',
         JList [JList [JNull, JInt 50], JList [JStr (u ''/a''), JInt 40], JList [JStr (u ''/b''), JInt 30],
                JList [JStr (u ''/c''), JInt 20], JList [JStr (u ''/d''), JInt 10],
                JList [JStr (u ''/e''), JInt 5]])])
     = Inr (155, [(u ''/a'', 40), (u ''/b'', 30), (u ''/c'', 20), (u ''/d'', 10)])
   \<and> (155::int) = sum_list (map (row_views (\<lambda>s. None)) (filter (\<lambda>r. 1 < row_len r) (result_rows
      (JObj [(u ''results'',
         JList [JList [JNull, JInt 50], JList [JStr (u ''/a''), JInt 40], JList [JStr (u ''/b''), JInt 30],
                JList [JStr (u ''/c''), JInt 20], JList [JStr (u ''/d''), JInt 10],
                JList [JStr (u ''/e''), JInt 5]])]))))"
proof -
  let ?res = "JObj [(u ''results'',
         JList [JList [JNull, JInt 50], JList [JStr (u ''/a''), JInt 40], JList [JStr (u ''/b''), JInt 30],
                JList [JStr (u ''/c''), JInt 20], JList [JStr (u ''/d''), JInt 10],
                JList [JStr (u ''/e''), JInt 5]])]"
  have e: "pageviews_of_result (\<lambda>s. None) (\<lambda>v. []) ?res
     = Inr (155, [(u ''/a'', 40), (u ''/b'', 30), (u ''/c'', 20), (u ''/d'', 10)])"
    by code_simp
  from pageviews_first_five_rows_then_filter [OF e] e show ?thesis by blast
qed

text \<open>
  Six rows, the first with a null URL: the code yields the 4 pages of rows 2 to 5,
  whereas the first 5 rows with a non-empty URL are the 5 pages of rows 2 to 6.
\<close>

theorem pageviews_first_five_counterexample:
  "pageviews_of_result (\<lambda>s. None) (\<lambda>v. [])
      (JObj [(u ''results'',
         JList [JList [JNull, JInt 50], JList [JStr (u ''/a''), JInt 40], JList [JStr (u ''/b''), JInt 30],
                JList [JStr (u ''/c''), JInt 20], JList [JStr (u ''/d''), JInt 10],
                JList [JStr (u ''/e''), JInt 5]])])
     = Inr (155, [(u ''/a'', 40), (u ''/b'', 30), (u ''/c'', 20), (u ''/d'', 10)])
   \<and> top_pages_spec (\<lambda>s. None) (\<lambda>v. [])
        (result_rows (JObj [(u ''results'',
           JList [JList [JNull, JInt 50], JList [JStr (u ''/a''), JInt 40], JList [JStr (u ''/b''), JInt 30],
                  JList [JStr (u ''/c''), JInt 20], JList [JStr (u ''/d''), JInt 10],
                  JList [JStr (u ''/e''), JInt 5]])]))
     = [(u ''/a'', 40), (u ''/b'', 30), (u ''/c'', 20), (u ''/d'', 10), (u ''/e'', 5)]
   \<and> [(u ''/a'', 40::int), (u ''/b'', 30), (u ''/c'', 20), (u ''/d'', 10)]
     \<noteq> [(u ''/a'', 40), (u ''/b'', 30), (u ''/c'', 20), (u ''/d'', 10), (u ''/e'', 5)]"
proof -
  let ?res = "JObj [(u ''results'',
         JList [JList [JNull, JInt 50], JList [JStr (u ''/a''), JInt 40], JList [JStr (u ''/b''), JInt 30],
                JList [JStr (u ''/c''), JInt 20], JList [JStr (u ''/d''), JInt 10],
                JList [JStr (u ''/e''), JInt 5]])]"
  have "pageviews_of_result (\<lambda>s. None) (\<lambda>v. []) ?res
     = Inr (155, [(u ''/a'', 40), (u ''/b'', 30), (u ''/c'', 20), (u ''/d'', 10)])"
    by code_simp
  moreover have "top_pages_spec (\<lambda>s. None) (\<lambda>v. []) (result_rows ?res)
     = [(u ''/a'', 40), (u ''/b'', 30), (u ''/c'', 20), (u ''/d'', 10), (u ''/e'', 5)]"
    by code_simp
  moreover have "[(u ''/a'', 40::int), (u ''/b'', 30), (u ''/c'', 20), (u ''/d'', 10)]
     \<noteq> [(u ''/a'', 40), (u ''/b'', 30), (u ''/c'', 20), (u ''/d'', 10), (u ''/e'', 5)]"
    by simp
  ultimately show ?thesis by blast
qed

section \<open>Trend value extraction\<close>

text \<open>
  Claim C4 fails on the code. The handler catches \<^verbatim>\<open>KeyError\<close>, \<^verbatim>\<open>IndexError\<close> and
  \<^verbatim>\<open>TypeError\<close> only: on the response \<^verbatim>\<open>{"results": [null]}\<close> the call \<^verbatim>\<open>None.get\<close> raises an
  \<^verbatim>\<open>AttributeError\<close>, which escapes.
\<close>

theorem extract_trend_value_attribute_error:
  "extract_trend_value int_of_str (JObj [(u ''results'', JList [JNull])]) = Inl AttributeError"
  by (simp add: extract_trend_value_def trend_value_body_def py_get_def dict_get_def
      py_getitem_def py_index_def)

text \<open>
  On a response of the expected shape the value is the last data point of the first
  series, and absent data gives 0.
\<close>

lemma extract_trend_value_last_point:
  "extract_trend_value int_of_str
     (JObj [(u ''results'', JList (JObj [(u ''data'', JList (points @ [JInt n]))] # series))]) = Inr n"
  by (simp add: extract_trend_value_def trend_value_body_def py_get_def dict_get_def
      py_getitem_def py_index_def truthy_def py_int_def)

lemma extract_trend_value_no_data:
  "extract_trend_value int_of_str (JObj []) = Inr 0"
  "extract_trend_value int_of_str (JObj [(u ''results'', JList [])]) = Inr 0"
  "extract_trend_value int_of_str (JObj [(u ''results'', JList [JObj [(u ''data'', JList [])]])]) = Inr 0"
  by (simp_all add: extract_trend_value_def trend_value_body_def py_get_def dict_get_def
      py_getitem_def py_index_def truthy_def py_int_def)

section \<open>Project discovery\<close>

lemma length_PROJECT_COLORS: "length PROJECT_COLORS = 8"
  by (simp add: PROJECT_COLORS_def)

lemma discover_loop_dicts:
  "discover_loop repr i (map JObj ds) acc =
     Inr (acc @ map (\<lambda>(j, d). entry_project repr j d)
                 (filter (\<lambda>(j, d). entry_id repr d \<noteq> []) (enumerate i ds)))"
proof (induction ds arbitrary: i acc)
  case Nil
  show ?case by simp
next
  case (Cons d ds)
  show ?case
    by (simp add: Cons.IH py_get_def Let_def entry_id_def entry_project_def length_PROJECT_COLORS)
qed

text \<open>
  Claim C10. On a successful response whose list holds dict entries, discovery returns
  one project for each entry whose \<^verbatim>\<open>str(id)\<close> is non-empty, in list order; an entry
  whose id is missing or the empty string is left out without an error; and the colour
  of a kept project is the palette entry at the entry's position in the API's list
  modulo 8, so that positions of omitted entries are used up as well.
\<close>

theorem discover_projects_palette_by_raw_position:
  assumes "status < 400" and "discover_results data = JList (map JObj ds)"
  shows "discover_projects repr True (Response status body (Inr data)) =
           Inr (map (\<lambda>(i, d). entry_project repr i d)
                  (filter (\<lambda>(i, d). entry_id repr d \<noteq> []) (enumerate 0 ds)))
       \<and> (\<forall>d. map_of d (u ''id'') = None \<or> map_of d (u ''id'') = Some (JStr []) \<longrightarrow> entry_id repr d = [])
       \<and> (\<forall>i d. color (entry_project repr i d) = PROJECT_COLORS ! (i mod 8))"
proof -
  have "discover_projects repr True (Response status body (Inr data)) =
          discover_loop repr 0 (map JObj ds) []"
    using assms by (simp add: discover_projects_def projects_of_data_def py_iter_def)
  moreover have "\<forall>d. map_of d (u ''id'') = None \<or> map_of d (u ''id'') = Some (JStr []) \<longrightarrow> entry_id repr d = []"
    by (auto simp: entry_id_def dict_get_def py_str_def)
  moreover have "\<forall>i d. color (entry_project repr i d) = PROJECT_COLORS ! (i mod 8)"
    by (simp add: entry_project_def)
  ultimately show ?thesis by (simp add: discover_loop_dicts)
qed

theorem discover_projects_palette_by_raw_position_witness:
  "discover_projects (\<lambda>v. []) True (Response 200 (Inr [])
      (Inr (JObj [(u ''results'', JList
         [JObj [(u ''id'', JInt 1), (u ''name'', JStr (u ''A''))],
          JObj [(u ''name'', JStr (u ''B''))],
          JObj [(u ''id'', JStr []), (u ''name'', JStr (u ''C''))],
          JObj [(u ''id'', JInt 4), (u ''name'', JStr (u ''D''))]])])))
     = Inr [\<lparr>name = JStr (u ''A''), project_id = u ''1'', color = 3447003, custom_events = []\<rparr>,
            \<lparr>name = JStr (u ''D''), project_id = u ''4'', color = 3066993, custom_events = []\<rparr>]
   \<and> PROJECT_COLORS ! 0 = 3447003 \<and> PROJECT_COLORS ! 1 = 10181046 \<and> PROJECT_COLORS ! 3 = 3066993"
proof -
  let ?ds = "[[(u ''id'', JInt 1), (u ''name'', JStr (u ''A''))],
          [(u ''name'', JStr (u ''B''))],
          [(u ''id'', JStr []), (u ''name'', JStr (u ''C''))],
          [(u ''id'', JInt 4), (u ''name'', JStr (u ''D''))]]"
  let ?data = "JObj [(u ''results'', JList (map JObj ?ds))]"
  have a: "(200::int) < 400" by simp
  have b: "discover_results ?data = JList (map JObj ?ds)"
    by (simp add: discover_results_def dict_get_def)
  have c: "map (\<lambda>(i, d). entry_project (\<lambda>v. []) i d)
                  (filter (\<lambda>(i, d). entry_id (\<lambda>v. []) d \<noteq> []) (enumerate 0 ?ds))
     = [\<lparr>name = JStr (u ''A''), project_id = u ''1'', color = 3447003, custom_events = []\<rparr>,
        \<lparr>name = JStr (u ''D''), project_id = u ''4'', color = 3066993, custom_events = []\<rparr>]"
    by code_simp
  have d: "PROJECT_COLORS ! 0 = 3447003 \<and> PROJECT_COLORS ! 1 = 10181046 \<and> PROJECT_COLORS ! 3 = 3066993"
    by (simp add: PROJECT_COLORS_def)
  from discover_projects_palette_by_raw_position [OF a b, of "\<lambda>v. []" "Inr []"] c d
  show ?thesis by simp
qed

section \<open>The collection loop\<close>

lemma main_loop_general:
  assumes "\<forall>p \<in> set ps. \<forall>e. fetch p = Inl e \<longrightarrow> is_Exception e"
  shows "main_loop other fetch ps rs es =
           Inr (rs @ map (\<lambda>p. (p, projr (fetch p))) (filter (\<lambda>p. \<not> isl (fetch p)) ps),
                es @ map (\<lambda>p. (p, str_exn other (projl (fetch p)))) (filter (\<lambda>p. isl (fetch p)) ps))"
  using assms
proof (induction ps arbitrary: rs es)
  case Nil
  show ?case by simp
next
  case (Cons p ps)
  then have ih: "\<And>rs es. main_loop other fetch ps rs es =
           Inr (rs @ map (\<lambda>p. (p, projr (fetch p))) (filter (\<lambda>p. \<not> isl (fetch p)) ps),
                es @ map (\<lambda>p. (p, str_exn other (projl (fetch p)))) (filter (\<lambda>p. isl (fetch p)) ps))"
    by simp
  show ?case
  proof (cases "fetch p")
    case (Inl e)
    with Cons.prems have "is_Exception e" by simp
    with Inl show ?thesis by (simp add: ih)
  next
    case (Inr m)
    then show ?thesis by (simp add: ih)
  qed
qed


text \<open>
  Claim C3. \<open>fetch p\<close> is the outcome of \<^verbatim>\<open>fetch_project_metrics\<close> for project \<open>p\<close>. When every
  exception that a fetch raises is an \<^verbatim>\<open>Exception\<close>, the loop runs to the end of the
  project list. A project whose fetch raises is in the failure list with \<^verbatim>\<open>str(e)\<close>, as
  often as it is in the project list (once, when listed once), and not in the success
  list; a project whose fetch returns is in the success list with its metrics and not in
  the failure list; and the success list is the one the loop builds on the project list
  without the failing projects.
\<close>

theorem main_loop_isolates_failures:
  assumes "\<forall>p \<in> set projects. \<forall>e. fetch p = Inl e \<longrightarrow> is_Exception e"
  shows "\<exists>results errors.
           main_loop other fetch projects [] [] = Inr (results, errors)
         \<and> results = map (\<lambda>p. (p, projr (fetch p))) (filter (\<lambda>p. \<not> isl (fetch p)) projects)
         \<and> errors = map (\<lambda>p. (p, str_exn other (projl (fetch p)))) (filter (\<lambda>p. isl (fetch p)) projects)
         \<and> (\<forall>p e. p \<in> set projects \<and> fetch p = Inl e \<longrightarrow>
               (p, str_exn other e) \<in> set errors \<and> p \<notin> fst ` set results
               \<and> count_list (map fst errors) p = count_list projects p)
         \<and> (\<forall>p m. p \<in> set projects \<and> fetch p = Inr m \<longrightarrow>
               (p, m) \<in> set results \<and> p \<notin> fst ` set errors
               \<and> count_list (map fst results) p = count_list projects p)
         \<and> main_loop other fetch (filter (\<lambda>p. \<not> isl (fetch p)) projects) [] [] = Inr (results, [])"
proof -
  let ?ok = "\<lambda>p. \<not> isl (fetch p)"
  let ?results = "map (\<lambda>p. (p, projr (fetch p))) (filter ?ok projects)"
  let ?errors = "map (\<lambda>p. (p, str_exn other (projl (fetch p)))) (filter (\<lambda>p. isl (fetch p)) projects)"
  have run: "main_loop other fetch projects [] [] = Inr (?results, ?errors)"
    using main_loop_general [OF assms, of other "[]" "[]"] by simp
  have fst_r: "map fst ?results = filter ?ok projects"
    by (simp add: comp_def)
  have fst_e: "map fst ?errors = filter (\<lambda>p. isl (fetch p)) projects"
    by (simp add: comp_def)
  have cnt: "count_list (filter P xs) x = (if P x then count_list xs x else 0)" for P and xs :: "'b list" and x
    by (induction xs) auto
  have failed: "(p, str_exn other e) \<in> set ?errors \<and> p \<notin> fst ` set ?results
               \<and> count_list (map fst ?errors) p = count_list projects p"
    if "p \<in> set projects" "fetch p = Inl e" for p e
  proof -
    from that have "(p, str_exn other e) \<in> set ?errors" by force
    moreover from that have "p \<notin> set (map fst ?results)" unfolding fst_r by simp
    then have "p \<notin> fst ` set ?results" by (simp only: set_map simp_thms)
    moreover from that have "count_list (map fst ?errors) p = count_list projects p"
      unfolding fst_e by (simp add: cnt)
    ultimately show ?thesis by blast
  qed
  have succeeded: "(p, m) \<in> set ?results \<and> p \<notin> fst ` set ?errors
               \<and> count_list (map fst ?results) p = count_list projects p"
    if "p \<in> set projects" "fetch p = Inr m" for p m
  proof -
    from that have "(p, m) \<in> set ?results" by force
    moreover from that have "p \<notin> set (map fst ?errors)" unfolding fst_e by simp
    then have "p \<notin> fst ` set ?errors" by (simp only: set_map simp_thms)
    moreover from that have "count_list (map fst ?results) p = count_list projects p"
      unfolding fst_r by (simp add: cnt)
    ultimately show ?thesis by blast
  qed
  have only_ok: "main_loop other fetch (filter ?ok projects) [] [] = Inr (?results, [])"
  proof -
    have "\<forall>p \<in> set (filter ?ok projects). \<forall>e. fetch p = Inl e \<longrightarrow> is_Exception e"
      by auto
    from main_loop_general [OF this, of other "[]" "[]"] show ?thesis
      by simp
  qed
  from run failed succeeded only_ok show ?thesis by blast
qed


theorem main_loop_isolates_failures_witness:
  "main_loop (\<lambda>e. [])
     (\<lambda>p. if project_id p = u ''2'' then Inl (PostHogAPIError (u ''Rate limited'')) else Inr (7::nat))
     [\<lparr>name = JStr (u ''A''), project_id = u ''1'', color = 3447003, custom_events = []\<rparr>,
      \<lparr>name = JStr (u ''B''), project_id = u ''2'', color = 3447003, custom_events = []\<rparr>,
      \<lparr>name = JStr (u ''C''), project_id = u ''3'', color = 3447003, custom_events = []\<rparr>] [] []
   = Inr ([(\<lparr>name = JStr (u ''A''), project_id = u ''1'', color = 3447003, custom_events = []\<rparr>, 7),
           (\<lparr>name = JStr (u ''C''), project_id = u ''3'', color = 3447003, custom_events = []\<rparr>, 7)],
          [(\<lparr>name = JStr (u ''B''), project_id = u ''2'', color = 3447003, custom_events = []\<rparr>,
            u ''Rate limited'')])"
proof -
  let ?fetch = "\<lambda>p. if project_id p = u ''2'' then Inl (PostHogAPIError (u ''Rate limited'')) else Inr (7::nat)"
  let ?ps = "[\<lparr>name = JStr (u ''A''), project_id = u ''1'', color = 3447003, custom_events = []\<rparr>,
      \<lparr>name = JStr (u ''B''), project_id = u ''2'', color = 3447003, custom_events = []\<rparr>,
      \<lparr>name = JStr (u ''C''), project_id = u ''3'', color = 3447003, custom_events = []\<rparr>]"
  have h: "\<forall>p \<in> set ?ps. \<forall>e. ?fetch p = Inl e \<longrightarrow> is_Exception e"
    by (simp add: is_Exception_def)
  have n: "u ''1'' \<noteq> u ''2''" "u ''3'' \<noteq> u ''2''" by (simp_all add: u_def)
  from main_loop_isolates_failures [OF h, of "\<lambda>e. []"]
  obtain results errors where
    "main_loop (\<lambda>e. []) ?fetch ?ps [] [] = Inr (results, errors)"
    "results = map (\<lambda>p. (p, projr (?fetch p))) (filter (\<lambda>p. \<not> isl (?fetch p)) ?ps)"
    "errors = map (\<lambda>p. (p, str_exn (\<lambda>e. []) (projl (?fetch p)))) (filter (\<lambda>p. isl (?fetch p)) ?ps)"
    by blast
  then show ?thesis by (simp add: n str_exn_def)
qed

section \<open>Splitting the message\<close>

lemma split_nl_no_newline: "10 \<notin> set s \<Longrightarrow> split_nl s = [s]"
  by (induction s) auto

lemma rstrip_newline: "rstrip (s @ [10]) = rstrip s"
  by (simp add: rstrip_def is_space_def)

lemma rstrip_no_trailing_space: "s \<noteq> [] \<Longrightarrow> \<not> is_space (last s) \<Longrightarrow> rstrip s = s"
  by (cases s rule: rev_cases) (simp_all add: rstrip_def)

lemma split_message_single_line:
  assumes "10 \<notin> set s" and "max_length < int (length s)"
  shows "split_message s max_length = [rstrip s]"
  using assms by (simp add: split_message_def split_nl_no_newline rstrip_newline)

text \<open>
  Claim C5 fails on the code. The splitter breaks at line ends only: a message that is
  one line of 2001 characters comes back as one chunk of 2001 characters, above the
  limit of 1900 it was given (and above Discord's limit of 2000 that the caller's
  comment names).
\<close>

theorem split_message_long_line_exceeds_limit:
  "split_message (replicate 2001 97) 1900 = [replicate 2001 97]
   \<and> map length (split_message (replicate 2001 97) 1900) = [2001]"
proof -
  let ?s = "replicate 2001 (97::nat)"
  have a: "10 \<notin> set ?s" by simp
  have b: "(1900::int) < int (length ?s)" by simp
  have ne: "?s \<noteq> []" by simp
  have l: "last ?s = 97" by simp
  have c: "rstrip ?s = ?s"
    by (rule rstrip_no_trailing_space [OF ne]) (simp add: l is_space_def)
  from split_message_single_line [OF a b] c show ?thesis by simp
qed

text \<open>
  What the splitter does achieve: when no line is longer than the limit, no chunk is;
  and the chunks of a message longer than the limit are the trimmed groups of
  consecutive lines, in order, of a partition of the lines of the message.
\<close>

lemma length_rstrip_le: "length (rstrip s) \<le> length s"
proof -
  have "length (dropWhile is_space (rev s)) \<le> length (rev s)" by (rule length_dropWhile_le)
  then show ?thesis by (simp add: rstrip_def)
qed

lemma split_loop_bounded:
  assumes "\<forall>l \<in> set lines. int (length l) \<le> m"
    and "cur = [] \<or> (\<exists>c. cur = c @ [10] \<and> int (length c) \<le> m)"
    and "\<forall>c \<in> set chunks. int (length c) \<le> m"
  shows "\<forall>c \<in> set (split_loop m lines cur chunks). int (length c) \<le> m"
  using assms
proof (induction lines arbitrary: cur chunks)
  case Nil
  have "int (length (rstrip cur)) \<le> m" if "cur \<noteq> []"
  proof -
    from Nil.prems(2) that obtain c where c: "cur = c @ [10]" "int (length c) \<le> m" by blast
    have "length (rstrip cur) \<le> length c" unfolding c(1) rstrip_newline by (rule length_rstrip_le)
    with c(2) show ?thesis by linarith
  qed
  with Nil.prems(3) show ?case by auto
next
  case (Cons line lines)
  have flushed: "\<forall>c \<in> set (if cur \<noteq> [] then chunks @ [rstrip cur] else chunks). int (length c) \<le> m"
  proof -
    have "int (length (rstrip cur)) \<le> m" if "cur \<noteq> []"
    proof -
      from Cons.prems(2) that obtain c where c: "cur = c @ [10]" "int (length c) \<le> m" by blast
      have "length (rstrip cur) \<le> length c" unfolding c(1) rstrip_newline by (rule length_rstrip_le)
      with c(2) show ?thesis by linarith
    qed
    with Cons.prems(3) show ?thesis by auto
  qed
  from Cons.prems(1) have rest: "\<forall>l \<in> set lines. int (length l) \<le> m"
    and line: "int (length line) \<le> m" by simp_all
  show ?case
  proof (cases "int (length cur) + int (length line) + 1 > m")
    case True
    have "\<forall>c \<in> set (split_loop m lines (line @ [10])
             (if cur \<noteq> [] then chunks @ [rstrip cur] else chunks)). int (length c) \<le> m"
      using rest line flushed by (intro Cons.IH) auto
    with True show ?thesis by simp
  next
    case False
    then have "int (length (cur @ line)) \<le> m" by simp
    then have "cur @ line @ [10] = [] \<or> (\<exists>c. cur @ line @ [10] = c @ [10] \<and> int (length c) \<le> m)"
      by (intro disjI2 exI [of _ "cur @ line"]) simp
    with rest Cons.prems(3) have "\<forall>c \<in> set (split_loop m lines (cur @ line @ [10]) chunks). int (length c) \<le> m"
      by (intro Cons.IH) auto
    with False show ?thesis by simp
  qed
qed

lemma split_message_bounded:
  assumes "\<forall>l \<in> set (split_nl message). int (length l) \<le> max_length"
  shows "\<forall>c \<in> set (split_message message max_length). int (length c) \<le> max_length"
proof (cases "int (length message) \<le> max_length")
  case True
  then show ?thesis by (simp add: split_message_def)
next
  case False
  have "\<forall>c \<in> set (split_loop max_length (split_nl message) [] []). int (length c) \<le> max_length"
    using assms by (intro split_loop_bounded) auto
  with False show ?thesis by (simp add: split_message_def)
qed

lemma unlines_Nil_iff: "unlines g = [] \<longleftrightarrow> g = []"
  by (cases g) (simp_all add: unlines_def)

lemma split_loop_groups:
  "\<exists>groups. concat groups = g0 @ lines \<and> [] \<notin> set groups
       \<and> split_loop m lines (unlines g0) chunks = chunks @ map (\<lambda>g. rstrip (unlines g)) groups"
proof (induction lines arbitrary: g0 chunks)
  case Nil
  show ?case
  proof (cases "g0 = []")
    case True
    then show ?thesis by (intro exI [of _ "[]"]) (simp add: unlines_def)
  next
    case False
    then show ?thesis by (intro exI [of _ "[g0]"]) (simp add: unlines_Nil_iff)
  qed
next
  case (Cons line lines)
  show ?case
  proof (cases "int (length (unlines g0)) + int (length line) + 1 > m")
    case True
    from Cons.IH [of "[line]" "if unlines g0 \<noteq> [] then chunks @ [rstrip (unlines g0)] else chunks"]
    obtain groups where g: "concat groups = [line] @ lines" "[] \<notin> set groups"
      "split_loop m lines (unlines [line])
          (if unlines g0 \<noteq> [] then chunks @ [rstrip (unlines g0)] else chunks)
        = (if unlines g0 \<noteq> [] then chunks @ [rstrip (unlines g0)] else chunks)
          @ map (\<lambda>g. rstrip (unlines g)) groups"
      by blast
    have u: "unlines [line] = line @ [10]" by (simp add: unlines_def)
    show ?thesis
    proof (cases "g0 = []")
      case g0: True
      with True g u show ?thesis
        by (intro exI [of _ groups]) (simp add: unlines_def)
    next
      case g0: False
      with True g u show ?thesis
        by (intro exI [of _ "g0 # groups"]) (simp add: unlines_Nil_iff)
    qed
  next
    case False
    have u: "unlines (g0 @ [line]) = unlines g0 @ line @ [10]" by (simp add: unlines_def)
    from Cons.IH [of "g0 @ [line]" chunks]
    obtain groups where g: "concat groups = (g0 @ [line]) @ lines" "[] \<notin> set groups"
      "split_loop m lines (unlines (g0 @ [line])) chunks = chunks @ map (\<lambda>g. rstrip (unlines g)) groups"
      by blast
    with False u show ?thesis
      by (intro exI [of _ groups]) simp
  qed
qed

lemma unlines_split_nl: "unlines (split_nl s) = s @ [10]"
proof (induction s)
  case Nil
  show ?case by (simp add: unlines_def)
next
  case (Cons c s)
  then show ?case by (cases "split_nl s") (auto simp: unlines_def)
qed

lemma split_message_groups:
  assumes "max_length < int (length message)"
  shows "\<exists>groups. concat groups = split_nl message \<and> [] \<notin> set groups
           \<and> split_message message max_length = map (\<lambda>g. rstrip (unlines g)) groups"
proof -
  from split_loop_groups [of "[]" "split_nl message" max_length "[]"]
  obtain groups where "concat groups = split_nl message" "[] \<notin> set groups"
    "split_loop max_length (split_nl message) (unlines []) [] = map (\<lambda>g. rstrip (unlines g)) groups"
    by auto
  with assms show ?thesis
    by (intro exI [of _ groups]) (simp add: split_message_def unlines_def)
qed

section \<open>Percent change: \<^verbatim>\<open>format_change\<close>\<close>

lemma round_half_even_bounds: "\<bar>of_int (round_half_even x) - x\<bar> \<le> 1 / 2"
proof -
  have "of_int \<lfloor>x\<rfloor> \<le> x" "x < of_int \<lfloor>x\<rfloor> + 1" by linarith+
  then show ?thesis
    by (auto simp: round_half_even_def Let_def abs_le_iff)
qed

lemma round_half_even_of_int [simp]: "round_half_even (of_int n) = n"
  by (simp add: round_half_even_def)

lemma round_half_even_eqI:
  assumes "\<bar>of_int n - x\<bar> < 1 / 2"
  shows "round_half_even x = n"
proof -
  have "\<bar>of_int (round_half_even x) - x\<bar> \<le> 1 / 2" by (rule round_half_even_bounds)
  with assms have "\<bar>(of_int (round_half_even x) :: rat) - of_int n\<bar> < 1" by linarith
  then have "\<bar>round_half_even x - n\<bar> < 1"
    by (metis of_int_1 of_int_abs of_int_diff of_int_less_iff)
  then show ?thesis by simp
qed

lemma round_half_even_nonneg: "0 \<le> x \<Longrightarrow> 0 \<le> round_half_even x"
proof -
  assume "0 \<le> x"
  have "\<bar>of_int (round_half_even x) - x\<bar> \<le> 1 / 2" by (rule round_half_even_bounds)
  with \<open>0 \<le> x\<close> have "(of_int (round_half_even x) :: rat) > - 1" by linarith
  then have "round_half_even x > - 1" by (metis of_int_less_iff of_int_minus of_int_1)
  then show ?thesis by simp
qed

lemma floor_log2_bounds:
  assumes "0 < q"
  shows "2 powi (floor_log2 q) \<le> q \<and> q < 2 powi (floor_log2 q + 1)"
proof -
  obtain a b where ab: "quotient_of q = (a, b)" by (cases "quotient_of q")
  then have b: "0 < b" by (rule quotient_of_denom_pos)
  from ab have q: "q = of_int a / of_int b" by (rule quotient_of_div)
  with assms b have a: "0 < a" by (simp add: zero_less_divide_iff)
  define la lb where "la = bitlen a" and "lb = bitlen b"
  from bitlen_bounds [OF a] have a1: "2 ^ nat (la - 1) \<le> a" and a2: "a < 2 ^ nat la"
    by (simp_all add: la_def)
  from bitlen_bounds [OF b] have b1: "2 ^ nat (lb - 1) \<le> b" and b2: "b < 2 ^ nat lb"
    by (simp_all add: lb_def)
  have la: "1 \<le> la" using a2 a by (cases "la \<le> 0") auto
  have lb: "1 \<le> lb" using b2 b by (cases "lb \<le> 0") auto
  have pa1: "(2::rat) powi (la - 1) \<le> of_int a"
  proof -
    have "(2::rat) powi (la - 1) = of_int (2 ^ nat (la - 1))"
      using la by (simp add: power_int_def)
    also have "\<dots> \<le> of_int a" using a1 by (simp only: of_int_le_iff)
    finally show ?thesis .
  qed
  have pa2: "of_int a < (2::rat) powi la"
  proof -
    have "(of_int a :: rat) < of_int (2 ^ nat la)" using a2 by (simp only: of_int_less_iff)
    also have "\<dots> = 2 powi la" using la by (simp add: power_int_def)
    finally show ?thesis .
  qed
  have pb1: "(2::rat) powi (lb - 1) \<le> of_int b"
  proof -
    have "(2::rat) powi (lb - 1) = of_int (2 ^ nat (lb - 1))"
      using lb by (simp add: power_int_def)
    also have "\<dots> \<le> of_int b" using b1 by (simp only: of_int_le_iff)
    finally show ?thesis .
  qed
  have pb2: "of_int b < (2::rat) powi lb"
  proof -
    have "(of_int b :: rat) < of_int (2 ^ nat lb)" using b2 by (simp only: of_int_less_iff)
    also have "\<dots> = 2 powi lb" using lb by (simp add: power_int_def)
    finally show ?thesis .
  qed
  have bpos: "(0::rat) < of_int b" using b by simp
  have lower: "2 powi (la - lb - 1) < q"
  proof -
    have "(2::rat) powi (la - lb - 1) * of_int b < 2 powi (la - lb - 1) * 2 powi lb"
      using pb2 by (simp add: mult_strict_left_mono)
    also have "\<dots> = 2 powi (la - 1)"
      by (simp add: power_int_add [symmetric])
    also have "\<dots> \<le> of_int a" by (rule pa1)
    finally show ?thesis using bpos by (simp add: q pos_less_divide_eq)
  qed
  have upper: "q < 2 powi (la - lb + 1)"
  proof -
    have "of_int a < (2::rat) powi la" by (rule pa2)
    also have "\<dots> = 2 powi (la - lb + 1) * 2 powi (lb - 1)"
      by (simp add: power_int_add [symmetric])
    also have "\<dots> \<le> 2 powi (la - lb + 1) * of_int b"
      using pb1 by (simp add: mult_left_mono)
    finally show ?thesis using bpos by (simp add: q pos_divide_less_eq)
  qed
  have fl: "floor_log2 q = (if 2 powi (la - lb) \<le> q then la - lb else la - lb - 1)"
    by (simp add: floor_log2_def ab la_def lb_def Let_def)
  show ?thesis
  proof (cases "2 powi (la - lb) \<le> q")
    case True
    with fl upper show ?thesis by simp
  next
    case False
    with fl lower show ?thesis by (simp add: less_imp_le)
  qed
qed


lemma floor_log2_eqI:
  assumes "2 powi e \<le> q" and "q < 2 powi (e + 1)"
  shows "floor_log2 q = e"
proof -
  have "(0::rat) < 2 powi e" by simp
  with assms(1) have "0 < q" by linarith
  from floor_log2_bounds [OF this]
  have f1: "2 powi (floor_log2 q) \<le> q" and f2: "q < 2 powi (floor_log2 q + 1)" by simp_all
  have "\<not> floor_log2 q < e"
  proof
    assume "floor_log2 q < e"
    then have "(2::rat) powi (floor_log2 q + 1) \<le> 2 powi e"
      by (intro power_int_increasing) simp_all
    with f2 assms(1) show False by linarith
  qed
  moreover have "\<not> e < floor_log2 q"
  proof
    assume "e < floor_log2 q"
    then have "(2::rat) powi (e + 1) \<le> 2 powi (floor_log2 q)"
      by (intro power_int_increasing) simp_all
    with f1 assms(2) show False by linarith
  qed
  ultimately show ?thesis by linarith
qed

lemma round_double_eqI:
  assumes "2 powi e \<le> q" and "q < 2 powi (e + 1)" and "- 1022 \<le> e"
    and "\<bar>of_int n - q / 2 powi (e - 52)\<bar> < 1 / 2"
    and "of_int n * 2 powi (e - 52) < (2::rat) powi 1024"
  shows "round_double q = Some (of_int n * 2 powi (e - 52))"
proof -
  have "(0::rat) < 2 powi e" by simp
  with assms(1) have "q \<noteq> 0" by linarith
  have e: "max (floor_log2 q) (- 1022) = e"
    using floor_log2_eqI [OF assms(1,2)] assms(3) by simp
  have n: "round_half_even (q / 2 powi (e - 52)) = n"
    by (rule round_half_even_eqI) (rule assms(4))
  show ?thesis
    unfolding round_double_def Let_def e n using \<open>q \<noteq> 0\<close> assms(5) by simp
qed

lemma round_double_overflow:
  assumes "2 powi 1024 \<le> q"
  shows "round_double q = None"
proof -
  have "(0::rat) < 2 powi 1024" by simp
  with assms have qpos: "0 < q" by linarith
  define e where "e = floor_log2 q"
  from floor_log2_bounds [OF qpos]
  have f1: "2 powi e \<le> q" and f2: "q < 2 powi (e + 1)" by (simp_all add: e_def)
  have e1024: "1024 \<le> e"
  proof (rule ccontr)
    assume "\<not> 1024 \<le> e"
    then have "(2::rat) powi (e + 1) \<le> 2 powi 1024"
      by (intro power_int_increasing) simp_all
    with f2 assms show False by linarith
  qed
  then have m: "max e (- 1022) = e" by simp
  define ulp :: rat where "ulp = 2 powi (e - 52)"
  have ulp: "0 < ulp" by (simp add: ulp_def)
  have split: "(2::rat) powi e = 2 powi 52 * ulp"
    unfolding ulp_def by (simp add: power_int_add [symmetric] del: power_int_numeral)
  define n where "n = round_half_even (q / ulp)"
  have "2 powi 52 \<le> q / ulp"
    using f1 ulp by (simp add: split pos_le_divide_eq)
  moreover have "\<bar>of_int n - q / ulp\<bar> \<le> 1 / 2"
    unfolding n_def by (rule round_half_even_bounds)
  ultimately have "(of_int n :: rat) > 2 powi 52 - 1" by linarith
  then have "(of_int n :: rat) > of_int (2 ^ 52 - 1)" by simp
  then have "n > 2 ^ 52 - 1" by (simp only: of_int_less_iff)
  then have "n \<ge> 2 ^ 52" by simp
  then have "(of_int n :: rat) \<ge> of_int (2 ^ 52)" by (simp only: of_int_le_iff)
  then have "(of_int n :: rat) \<ge> 2 powi 52" by simp
  then have "of_int n * ulp \<ge> 2 powi 52 * ulp"
    using ulp by (simp add: mult_right_mono)
  with split have "of_int n * ulp \<ge> 2 powi e" by simp
  moreover have "(2::rat) powi 1024 \<le> 2 powi e"
    using e1024 by (intro power_int_increasing) simp_all
  ultimately have big: "2 powi 1024 \<le> of_int n * ulp" by linarith
  have "q \<noteq> 0" using qpos by simp
  then show ?thesis
    unfolding round_double_def Let_def e_def [symmetric] m ulp_def [symmetric] n_def [symmetric]
    using big by simp
qed

text \<open>
  In the normal range the rounding stays finite and moves a value by at most the
  fraction \<open>2 ^ -53\<close> of it.
\<close>

lemma round_double_normal:
  assumes "2 powi (- 1022) \<le> q" and "q < 2 powi 1023"
  shows "\<exists>r. round_double q = Some r \<and> \<bar>r - q\<bar> \<le> q / 2 ^ 53"
proof -
  have "(0::rat) < 2 powi (- 1022)" by (rule zero_less_power_int) simp
  with assms have qpos: "0 < q" by linarith
  define e where "e = floor_log2 q"
  from floor_log2_bounds [OF qpos]
  have f1: "2 powi e \<le> q" and f2: "q < 2 powi (e + 1)" by (simp_all add: e_def)
  have elo: "- 1022 \<le> e"
  proof (rule ccontr)
    assume "\<not> - 1022 \<le> e"
    then have "(2::rat) powi (e + 1) \<le> 2 powi (- 1022)"
      by (intro power_int_increasing) simp_all
    with f2 assms(1) show False by linarith
  qed
  have ehi: "e \<le> 1022"
  proof (rule ccontr)
    assume "\<not> e \<le> 1022"
    then have "(2::rat) powi 1023 \<le> 2 powi e"
      by (intro power_int_increasing) simp_all
    with f1 assms(2) show False by linarith
  qed
  from elo have m: "max e (- 1022) = e" by simp
  define ulp :: rat where "ulp = 2 powi (e - 52)"
  have ulp: "0 < ulp" by (simp add: ulp_def)
  have split: "(2::rat) powi e = 2 ^ 52 * ulp"
  proof -
    have "(2::rat) powi e = 2 powi 52 * 2 powi (e - 52)"
      by (simp add: power_int_add [symmetric] del: power_int_numeral)
    then show ?thesis by (simp add: ulp_def)
  qed
  have split1: "(2::rat) powi (e + 1) = 2 ^ 53 * ulp"
  proof -
    have "e + 1 = 53 + (e - 52)" by simp
    then have "(2::rat) powi (e + 1) = 2 powi (53 + (e - 52))" by (rule arg_cong)
    also have "\<dots> = 2 powi 53 * 2 powi (e - 52)"
      by (rule power_int_add) simp
    finally have "(2::rat) powi (e + 1) = 2 powi 53 * 2 powi (e - 52)" .
    then show ?thesis by (simp add: ulp_def)
  qed
  define n where "n = round_half_even (q / ulp)"
  define r where "r = of_int n * ulp"
  have nb: "\<bar>of_int n - q / ulp\<bar> \<le> 1 / 2"
    unfolding n_def by (rule round_half_even_bounds)
  have t_hi: "q / ulp < 2 ^ 53"
    using f2 ulp by (simp add: split1 pos_divide_less_eq)
  have "(of_int n :: rat) < 2 ^ 53 + 1" using nb t_hi by linarith
  then have "(of_int n :: rat) < of_int (2 ^ 53 + 1)" by simp
  then have "n < 2 ^ 53 + 1" by (simp only: of_int_less_iff)
  then have "n \<le> 2 ^ 53" by simp
  then have "(of_int n :: rat) \<le> of_int (2 ^ 53)" by (simp only: of_int_le_iff)
  then have "(of_int n :: rat) \<le> 2 ^ 53" by simp
  then have "r \<le> 2 ^ 53 * ulp" unfolding r_def using ulp by (simp add: mult_right_mono)
  then have "r \<le> 2 powi (e + 1)" by (simp add: split1)
  moreover have "(2::rat) powi (e + 1) \<le> 2 powi 1023"
    using ehi by (intro power_int_increasing) simp_all
  moreover have "(2::rat) powi 1023 < 2 powi 1024"
    by (intro power_int_strict_increasing) simp_all
  ultimately have fin: "\<not> 2 powi 1024 \<le> r" by linarith
  have rd: "round_double q = Some r"
    unfolding round_double_def Let_def e_def [symmetric] m ulp_def [symmetric] n_def [symmetric]
      r_def [symmetric]
    using fin qpos by simp
  have "r - q = (of_int n - q / ulp) * ulp"
    unfolding r_def using ulp by (simp add: algebra_simps)
  then have "\<bar>r - q\<bar> = \<bar>of_int n - q / ulp\<bar> * ulp"
    using ulp by (simp add: abs_mult)
  also have "\<dots> \<le> (1 / 2) * ulp"
    using nb ulp by (intro mult_right_mono) simp_all
  also have "\<dots> = 2 powi e / 2 ^ 53"
    by (simp add: split)
  also have "\<dots> \<le> q / 2 ^ 53"
    using f1 by (simp add: divide_right_mono)
  finally have "\<bar>r - q\<bar> \<le> q / 2 ^ 53" .
  with rd show ?thesis by blast
qed


lemma round_double_hundredth:
  "round_double (1 / 100) = Some (5764607523034235 / 576460752303423488)"
proof -
  have "round_double (1 / 100) = Some (of_int 5764607523034235 * 2 powi (- 7 - 52))"
    by (rule round_double_eqI) simp_all
  then show ?thesis by simp
qed

lemma round_double_hundredth_times_100:
  "round_double (5764607523034235 / 576460752303423488 * 100) = Some 1"
proof -
  have "round_double (5764607523034235 / 576460752303423488 * 100)
          = Some (of_int 4503599627370496 * 2 powi (0 - 52))"
    by (rule round_double_eqI) simp_all
  then show ?thesis by simp
qed

lemma gap_below:
  fixes a b k :: int
  assumes "0 < b" and "100 * of_int a / of_int b < (of_int k - 1 / 2 :: rat)"
  shows "1 / (2 * of_int b) \<le> (of_int k - 1 / 2 - 100 * of_int a / of_int b :: rat)"
proof -
  have bpos: "(0::rat) < of_int b" using assms(1) by simp
  from assms(2) bpos have "100 * (of_int a :: rat) < (of_int k - 1 / 2) * of_int b"
    by (simp add: pos_divide_less_eq)
  then have "(of_int (200 * a) :: rat) < of_int ((2 * k - 1) * b)"
    by (simp add: algebra_simps)
  then have "200 * a < (2 * k - 1) * b" by (simp only: of_int_less_iff)
  then have "200 * a + 1 \<le> (2 * k - 1) * b" by simp
  then have "(of_int (200 * a + 1) :: rat) \<le> of_int ((2 * k - 1) * b)"
    by (simp only: of_int_le_iff)
  then have "200 * (of_int a :: rat) + 1 \<le> (2 * of_int k - 1) * of_int b" by simp
  then show ?thesis using bpos by (simp add: field_simps)
qed

lemma gap_above:
  fixes a b k :: int
  assumes "0 < b" and "(of_int k + 1 / 2 :: rat) < 100 * of_int a / of_int b"
  shows "1 / (2 * of_int b) \<le> (100 * of_int a / of_int b - (of_int k + 1 / 2) :: rat)"
proof -
  have bpos: "(0::rat) < of_int b" using assms(1) by simp
  from assms(2) bpos have "(of_int k + 1 / 2) * of_int b < 100 * (of_int a :: rat)"
    by (simp add: pos_less_divide_eq)
  then have "(of_int ((2 * k + 1) * b) :: rat) < of_int (200 * a)"
    by (simp add: algebra_simps)
  then have "(2 * k + 1) * b < 200 * a" by (simp only: of_int_less_iff)
  then have "(2 * k + 1) * b + 1 \<le> 200 * a" by simp
  then have "(of_int ((2 * k + 1) * b + 1) :: rat) \<le> of_int (200 * a)"
    by (simp only: of_int_le_iff)
  then have "(2 * of_int k + 1) * of_int b + 1 \<le> 200 * (of_int a :: rat)" by simp
  then show ?thesis using bpos by (simp add: field_simps)
qed


text \<open>
  The float \<^verbatim>\<open>(a / b) * 100\<close> for \<open>0 \<le> a < 2 ^ 43\<close> and \<open>0 < b < 2 ^ 43\<close>: it is finite, it
  is below 1 exactly when the exact percentage is, and rounding it to an integer gives
  an integer nearest to the exact percentage.
\<close>

lemma pct_float:
  fixes a b :: int
  assumes a0: "0 \<le> a" and a43: "a < 2 ^ 43" and b0: "0 < b" and b43: "b < 2 ^ 43"
  shows "\<exists>q F. round_double (of_int a / of_int b) = Some q
             \<and> round_double (\<bar>q\<bar> * 100) = Some F
             \<and> 0 \<le> F
             \<and> (F < 1 \<longleftrightarrow> 100 * a < b)
             \<and> \<bar>of_int (round_half_even F) - 100 * of_int a / of_int b\<bar> \<le> (1 / 2 :: rat)"
proof (cases "a = 0")
  case True
  have "round_double (of_int a / of_int b) = Some 0" "round_double (\<bar>0\<bar> * 100) = Some 0"
    using True by (simp_all add: round_double_def)
  moreover have "(0::rat) < 1 \<longleftrightarrow> 100 * a < b" using True b0 by simp
  moreover have "\<bar>of_int (round_half_even 0) - 100 * of_int a / of_int b\<bar> \<le> (1 / 2 :: rat)"
    using True round_half_even_of_int [of 0] by simp
  ultimately show ?thesis by (intro exI [of _ 0]) simp
next
  case False
  with a0 have a1: "1 \<le> a" by simp
  define x :: rat where "x = of_int a / of_int b"
  define P :: rat where "P = 100 * x"
  define g :: rat where "g = 1 / (2 * of_int b)"
  have bpos: "(0::rat) < of_int b" using b0 by simp
  have ar: "(1::rat) \<le> of_int a" using a1 by (metis of_int_1 of_int_le_iff)
  have ar43: "(of_int a :: rat) < 2 ^ 43"
  proof -
    have "(of_int a :: rat) < of_int (2 ^ 43)" using a43 by (simp only: of_int_less_iff)
    then show ?thesis by simp
  qed
  have br1: "(1::rat) \<le> of_int b" using b0 by (metis of_int_1 of_int_le_iff zle_diff1_eq diff_gt_0_iff_gt int_one_le_iff_zero_less)
  have br43: "(of_int b :: rat) < 2 ^ 43"
  proof -
    have "(of_int b :: rat) < of_int (2 ^ 43)" using b43 by (simp only: of_int_less_iff)
    then show ?thesis by simp
  qed
  have gpos: "0 < g" using bpos by (simp add: g_def)
  have x_lo: "1 / 2 ^ 43 < x"
  proof -
    have "1 / 2 ^ 43 < 1 / (of_int b :: rat)"
      using br43 bpos by (simp add: frac_less2)
    also have "\<dots> \<le> x" unfolding x_def using ar bpos by (simp add: divide_right_mono)
    finally show ?thesis .
  qed
  have x_hi: "x < 2 ^ 43"
  proof -
    have "x \<le> of_int a" unfolding x_def using br1 ar bpos
      by (simp add: pos_divide_le_eq mult_le_cancel_left1)
    with ar43 show ?thesis by linarith
  qed
  have xpos: "0 < x" using x_lo by (simp add: less_trans [OF _ x_lo])
  have small: "(2::rat) powi (- 1022) \<le> 1 / 2 ^ 44"
  proof -
    have "(2::rat) powi (- 1022) \<le> 2 powi (- 44)"
      by (intro power_int_increasing) simp_all
    then show ?thesis by (simp add: power_int_minus_divide)
  qed
  have big: "(2::rat) ^ 52 < 2 powi 1023"
  proof -
    have "(2::rat) powi 52 < 2 powi 1023"
      by (intro power_int_strict_increasing) simp_all
    then show ?thesis by simp
  qed
  have c0: "(0::rat) < 1 / 2 ^ 43" and c1: "(1::rat) / 2 ^ 44 \<le> 1 / 2 ^ 43"
    and c2: "200 * (2::rat) ^ 43 \<le> 2 ^ 52" and c3: "200 * (2::rat) ^ 43 \<le> 2 ^ 51"
    and c4: "(0::rat) < 2 ^ 43"
    by simp_all
  have "2 powi (- 1022) \<le> x" using small x_lo c1 by linarith
  moreover have "x < 2 powi 1023" using big x_hi c2 c4 by linarith
  ultimately obtain q where q: "round_double x = Some q" and qe: "\<bar>q - x\<bar> \<le> x / 2 ^ 53"
    using round_double_normal by blast
  have x53: "x / 2 ^ 53 \<le> x / 2" using xpos by (simp add: frac_le)
  have q_lo: "x / 2 \<le> q" and q_hi: "q \<le> 2 * x" using qe x53 xpos by linarith+
  have qpos: "0 < q" using q_lo xpos by linarith
  define y where "y = \<bar>q\<bar> * 100"
  have y: "y = q * 100" using qpos by (simp add: y_def)
  have "2 powi (- 1022) \<le> y" using small x_lo q_lo y c0 c1 by linarith
  moreover have "y < 2 powi 1023" using big x_hi q_hi y c2 by linarith
  ultimately obtain F where F: "round_double y = Some F" and Fe: "\<bar>F - y\<bar> \<le> y / 2 ^ 53"
    using round_double_normal by blast
  have Ppos: "0 < P" using xpos by (simp add: P_def)
  have yP: "\<bar>y - P\<bar> \<le> P / 2 ^ 53"
  proof -
    have e: "y - P = 100 * (q - x)" unfolding y P_def by (simp add: algebra_simps)
    have "\<bar>y - P\<bar> = \<bar>100\<bar> * \<bar>q - x\<bar>" unfolding e by (rule abs_mult)
    then have "\<bar>y - P\<bar> = 100 * \<bar>q - x\<bar>" by simp
    also have "\<dots> \<le> 100 * (x / 2 ^ 53)" using qe by simp
    finally show ?thesis by (simp add: P_def)
  qed
  have y2P: "y \<le> 2 * P" using q_hi y by (simp add: P_def)
  have "y / 2 ^ 53 \<le> 2 * P / 2 ^ 53" using y2P by (simp add: divide_right_mono)
  with Fe yP have FP3: "\<bar>F - P\<bar> \<le> 3 * (P / 2 ^ 53)" by linarith
  have FP: "\<bar>F - P\<bar> < g"
  proof -
    have "200 * (of_int a :: rat) < 2 ^ 51" using ar43 c3 by linarith
    then have h: "3 * (100 * of_int a / 2 ^ 53) < (1 / 2 :: rat)" by simp
    have "3 * (100 * of_int a / 2 ^ 53) / of_int b < (1 / 2) / (of_int b :: rat)"
      by (rule divide_strict_right_mono [OF h bpos])
    moreover have "3 * (P / 2 ^ 53) = 3 * (100 * of_int a / 2 ^ 53) / of_int b"
      by (simp add: P_def x_def)
    moreover have "g = (1 / 2) / of_int b" by (simp add: g_def)
    ultimately show ?thesis using FP3 by linarith
  qed
  have Fpos: "0 \<le> F"
  proof -
    have "y / 2 ^ 53 \<le> y" using qpos y by (simp add: field_simps)
    with Fe show ?thesis by linarith
  qed
  have Pdef: "P = 100 * of_int a / of_int b" by (simp add: P_def x_def)
  have lt: "F < 1 \<longleftrightarrow> 100 * a < b"
  proof -
    consider (less) "100 * a < b" | (eq) "100 * a = b" | (greater) "b < 100 * a" by linarith
    then show ?thesis
    proof cases
      case less
      then have "100 * a + 1 \<le> b" by simp
      then have "(of_int (100 * a + 1) :: rat) \<le> of_int b" by (simp only: of_int_le_iff)
      then have "100 * (of_int a :: rat) \<le> of_int b - 1" by simp
      then have "P \<le> (of_int b - 1) / of_int b"
        unfolding Pdef using bpos by (simp add: divide_right_mono)
      also have "\<dots> = 1 - 2 * g" using bpos by (simp add: g_def field_simps)
      finally have "P \<le> 1 - 2 * g" .
      with FP gpos have "F < 1" by linarith
      with less show ?thesis by simp
    next
      case eq
      then have "(of_int b :: rat) = 100 * of_int a" by (metis of_int_mult of_int_numeral)
      then have "x = 1 / 100" using ar by (simp add: x_def)
      with q have q': "q = 5764607523034235 / 576460752303423488"
        by (simp add: round_double_hundredth)
      from F have "round_double (q * 100) = Some F" by (simp only: y)
      then have "round_double (5764607523034235 / 576460752303423488 * 100) = Some F"
        by (simp only: q')
      then have "Some F = Some 1" by (simp only: round_double_hundredth_times_100)
      then have "F = 1" by simp
      with eq show ?thesis by simp
    next
      case greater
      then have "b + 1 \<le> 100 * a" by simp
      then have "(of_int (b + 1) :: rat) \<le> of_int (100 * a)" by (simp only: of_int_le_iff)
      then have "of_int b + 1 \<le> 100 * (of_int a :: rat)" by simp
      then have "(of_int b + 1) / of_int b \<le> P"
        unfolding Pdef using bpos by (simp add: divide_right_mono)
      moreover have "(of_int b + 1) / of_int b = 1 + 2 * g" using bpos by (simp add: g_def field_simps)
      ultimately have "1 + 2 * g \<le> P" by simp
      with FP gpos have "1 < F" by linarith
      with greater show ?thesis by simp
    qed
  qed
  define k where "k = round_half_even F"
  have kF: "\<bar>of_int k - F\<bar> \<le> 1 / 2" unfolding k_def by (rule round_half_even_bounds)
  have near: "\<bar>of_int k - P\<bar> \<le> 1 / 2"
  proof (rule ccontr)
    assume "\<not> \<bar>of_int k - P\<bar> \<le> 1 / 2"
    then consider (below) "P < of_int k - 1 / 2" | (above) "of_int k + 1 / 2 < P" by linarith
    then show False
    proof cases
      case below
      then have "100 * of_int a / of_int b < (of_int k - 1 / 2 :: rat)" by (simp add: Pdef)
      from gap_below [OF b0 this] have "g \<le> of_int k - 1 / 2 - P" by (simp add: g_def Pdef)
      with kF FP show False by linarith
    next
      case above
      then have "(of_int k + 1 / 2 :: rat) < 100 * of_int a / of_int b" by (simp add: Pdef)
      from gap_above [OF b0 this] have "g \<le> P - (of_int k + 1 / 2)" by (simp add: g_def Pdef)
      with kF FP show False by linarith
    qed
  qed
  from q F Fpos lt near show ?thesis
    unfolding x_def [symmetric] y_def k_def Pdef [symmetric] by blast
qed


lemma format_change_bounded:
  assumes p0: "prev \<noteq> 0" and cb: "\<bar>current - prev\<bar> < 2 ^ 43" and pb: "\<bar>prev\<bar> < 2 ^ 43"
  shows "\<exists>r::nat.
           \<bar>of_nat r - 100 * of_int \<bar>current - prev\<bar> / of_int \<bar>prev\<bar>\<bar> \<le> (1 / 2 :: rat)
         \<and> format_change current (Some prev) =
             Inr (format_number current @ u '' ''
                  @ (if 100 * \<bar>current - prev\<bar> < \<bar>prev\<bar> then [8596]
                     else if prev < current then [8593] else [8595])
                  @ u '' ''
                  @ (if 100 * \<bar>current - prev\<bar> < \<bar>prev\<bar> then []
                     else if prev < current then u ''+'' else [])
                  @ (if (current - prev < 0) \<noteq> (prev < 0) then u ''-'' else [])
                  @ digits r @ u ''%'')"
proof -
  define a b where "a = \<bar>current - prev\<bar>" and "b = \<bar>prev\<bar>"
  define s where "s = ((current - prev < 0) \<noteq> (prev < 0))"
  have a0: "0 \<le> a" and b0: "0 < b" using p0 by (simp_all add: a_def b_def)
  from pct_float [OF a0 cb [folded a_def] b0 pb [folded b_def]]
  obtain q F where q: "round_double (of_int a / of_int b) = Some q"
    and F: "round_double (\<bar>q\<bar> * 100) = Some F"
    and F0: "0 \<le> F"
    and lt: "F < 1 \<longleftrightarrow> 100 * a < b"
    and near: "\<bar>of_int (round_half_even F) - 100 * of_int a / of_int b\<bar> \<le> (1 / 2 :: rat)"
    by blast
  have quot: "\<bar>of_int (current - prev) / of_int prev :: rat\<bar> = of_int a / of_int b"
    by (simp only: abs_divide a_def b_def of_int_abs)
  have div: "int_truediv (current - prev) prev = Inr (Finite s q)"
  proof -
    have "int_truediv (current - prev) prev =
            (case round_double \<bar>of_int (current - prev) / of_int prev\<bar> of
               None \<Rightarrow> Inl OverflowError
             | Some m \<Rightarrow> Inr (Finite ((current - prev < 0) \<noteq> (prev < 0)) m))"
      using p0 by (simp only: int_truediv_def if_False)
    also have "\<dots> = Inr (Finite s q)"
      by (simp only: quot q s_def option.case)
    finally show ?thesis .
  qed
  have mul: "float_mul (Finite s q) (float_of_small_int 100) = Finite s F"
    using F by (simp add: float_of_small_int_def)
  have abs_lt: "float_abs_lt (Finite s F) 1 \<longleftrightarrow> 100 * a < b"
    using F0 lt by (simp add: float_abs_lt_def)
  define r where "r = nat (round_half_even F)"
  have "0 \<le> round_half_even F" using F0 by (rule round_half_even_nonneg)
  then have r: "(of_nat r :: rat) = of_int (round_half_even F)" by (simp add: r_def)
  have f0: "format_f0 (Finite s F) = (if s then u ''-'' else []) @ digits r"
    using F0 by (simp add: format_f0_def r_def)
  have gt: "0 < current - prev \<longleftrightarrow> prev < current" by simp
  have "format_change current (Some prev) =
          Inr (format_number current @ u '' ''
               @ (if 100 * a < b then [8596] else if prev < current then [8593] else [8595])
               @ u '' ''
               @ (if 100 * a < b then [] else if prev < current then u ''+'' else [])
               @ (if s then u ''-'' else []) @ digits r @ u ''%'')"
    using p0 by (simp add: format_change_def Let_def div mul abs_lt f0 del: float_mul.simps)
  moreover have "\<bar>of_nat r - 100 * of_int a / of_int b\<bar> \<le> (1 / 2 :: rat)"
    using near by (simp only: r)
  ultimately show ?thesis unfolding a_def b_def s_def by blast
qed

text \<open>
  Claim C1, as the code has it, for a current value of magnitude at most \<open>10 ^ 12\<close>.
  With no previous value, or the previous value 0, the result is the thousands-separated
  current value alone. With a previous value other than 0, of magnitude at most
  \<open>10 ^ 12\<close>, let \<open>pct = (current - previous) / previous * 100\<close> in exact arithmetic: no
  exception is raised, and the result is the thousands-separated current value, a space,
  the marker, a space, the sign \<^verbatim>\<open>+\<close> if any, and the percentage with \<^verbatim>\<open>%\<close>. The marker is the
  no-change arrow with no \<^verbatim>\<open>+\<close> when \<open>\<bar>pct\<bar> < 1\<close>, otherwise the up arrow with \<^verbatim>\<open>+\<close> when
  \<open>current > previous\<close> and the down arrow with no \<^verbatim>\<open>+\<close> when not. The percentage is an
  integer \<open>r\<close> nearest to \<open>\<bar>pct\<bar>\<close> (\<open>\<bar>r - \<bar>pct\<bar>\<bar> \<le> 1/2\<close>), after a minus sign when the
  change and the previous value have opposite signs (or the change is 0 and the previous
  value negative): a negative \<open>pct\<close> keeps its minus sign also when it rounds to 0.
\<close>

theorem format_change_renders:
  assumes "\<bar>current\<bar> \<le> 1000000000000"
  shows "format_change current None = Inr (format_number current)
       \<and> format_change current (Some 0) = Inr (format_number current)
       \<and> (prev \<noteq> 0 \<and> \<bar>prev\<bar> \<le> 1000000000000 \<longrightarrow>
            (\<exists>r::nat.
               \<bar>of_nat r - 100 * of_int \<bar>current - prev\<bar> / of_int \<bar>prev\<bar>\<bar> \<le> (1 / 2 :: rat)
             \<and> format_change current (Some prev) =
                 Inr (format_number current @ u '' ''
                      @ (if 100 * \<bar>current - prev\<bar> < \<bar>prev\<bar> then [8596]
                         else if prev < current then [8593] else [8595])
                      @ u '' ''
                      @ (if 100 * \<bar>current - prev\<bar> < \<bar>prev\<bar> then []
                         else if prev < current then u ''+'' else [])
                      @ (if (current - prev < 0) \<noteq> (prev < 0) then u ''-'' else [])
                      @ digits r @ u ''%'')))"
proof -
  have none: "format_change current None = Inr (format_number current)"
    by (simp add: format_change_def)
  have zero: "format_change current (Some 0) = Inr (format_number current)"
    by (simp add: format_change_def)
  have "\<exists>r::nat.
               \<bar>of_nat r - 100 * of_int \<bar>current - prev\<bar> / of_int \<bar>prev\<bar>\<bar> \<le> (1 / 2 :: rat)
             \<and> format_change current (Some prev) =
                 Inr (format_number current @ u '' ''
                      @ (if 100 * \<bar>current - prev\<bar> < \<bar>prev\<bar> then [8596]
                         else if prev < current then [8593] else [8595])
                      @ u '' ''
                      @ (if 100 * \<bar>current - prev\<bar> < \<bar>prev\<bar> then []
                         else if prev < current then u ''+'' else [])
                      @ (if (current - prev < 0) \<noteq> (prev < 0) then u ''-'' else [])
                      @ digits r @ u ''%'')"
    if p: "prev \<noteq> 0" "\<bar>prev\<bar> \<le> 1000000000000"
  proof -
    have e: "(2::int) ^ 43 = 8796093022208" by simp
    have c: "\<bar>current - prev\<bar> < 2 ^ 43" unfolding e using assms p(2) by linarith
    have b: "\<bar>prev\<bar> < 2 ^ 43" unfolding e using p(2) by linarith
    show ?thesis by (rule format_change_bounded [OF p(1) c b])
  qed
  with none zero show ?thesis by blast
qed

lemma nat_near:
  fixes r :: nat and n :: nat
  assumes "\<bar>of_nat r - x\<bar> \<le> (1 / 2 :: rat)" and "\<bar>of_nat n - x\<bar> < 1 / 2"
  shows "r = n"
proof -
  from assms have "(of_nat r :: rat) < of_nat n + 1" by linarith
  then have "(of_nat r :: rat) < of_nat (Suc n)" by simp
  then have 1: "r < Suc n" by (simp only: of_nat_less_iff)
  from assms have "(of_nat n :: rat) < of_nat r + 1" by linarith
  then have "(of_nat n :: rat) < of_nat (Suc r)" by simp
  then have 2: "n < Suc r" by (simp only: of_nat_less_iff)
  from 1 2 show ?thesis by simp
qed

theorem format_change_renders_witness:
  "format_change 101 (Some 100) = Inr (u ''101 '' @ [8593] @ u '' +1%'')
   \<and> format_change 120 (Some 100) = Inr (u ''120 '' @ [8593] @ u '' +20%'')
   \<and> format_change 100 (Some 120) = Inr (u ''100 '' @ [8595] @ u '' -17%'')
   \<and> format_change 1234567 None = Inr (u ''1,234,567'')"
proof -
  have d: "digits (Suc 0) = u ''1''" "digits 20 = u ''20''" "digits 17 = u ''17''"
    by (simp_all add: digits.simps u_def)
  have n: "format_number 101 = u ''101''" "format_number 120 = u ''120''"
    "format_number 100 = u ''100''" "format_number 1234567 = u ''1,234,567''"
    by (simp_all add: format_number_def digits.simps u_def)
  have b: "\<bar>101::int\<bar> \<le> 1000000000000" "\<bar>120::int\<bar> \<le> 1000000000000"
    "\<bar>100::int\<bar> \<le> 1000000000000" "\<bar>1234567::int\<bar> \<le> 1000000000000"
    by simp_all
  from format_change_renders [OF b(1), of 100]
  obtain r1 :: nat where r1: "\<bar>of_nat r1 - 100 * of_int \<bar>101 - 100\<bar> / of_int \<bar>100\<bar>\<bar> \<le> (1 / 2 :: rat)"
    and f1: "format_change 101 (Some 100) =
      Inr (format_number 101 @ u '' '' @ [8593] @ u '' '' @ u ''+'' @ [] @ digits r1 @ u ''%'')"
    by auto
  have "r1 = 1" by (rule nat_near [OF r1]) simp
  with f1 have e1: "format_change 101 (Some 100) = Inr (u ''101 '' @ [8593] @ u '' +1%'')"
    by (simp add: d n u_def)
  from format_change_renders [OF b(2), of 100]
  obtain r2 :: nat where r2: "\<bar>of_nat r2 - 100 * of_int \<bar>120 - 100\<bar> / of_int \<bar>100\<bar>\<bar> \<le> (1 / 2 :: rat)"
    and f2: "format_change 120 (Some 100) =
      Inr (format_number 120 @ u '' '' @ [8593] @ u '' '' @ u ''+'' @ [] @ digits r2 @ u ''%'')"
    by auto
  have "r2 = 20" by (rule nat_near [OF r2]) simp
  with f2 have e2: "format_change 120 (Some 100) = Inr (u ''120 '' @ [8593] @ u '' +20%'')"
    by (simp add: d n u_def)
  from format_change_renders [OF b(3), of 120]
  obtain r3 :: nat where r3: "\<bar>of_nat r3 - 100 * of_int \<bar>100 - 120\<bar> / of_int \<bar>120\<bar>\<bar> \<le> (1 / 2 :: rat)"
    and f3: "format_change 100 (Some 120) =
      Inr (format_number 100 @ u '' '' @ [8595] @ u '' '' @ [] @ u ''-'' @ digits r3 @ u ''%'')"
    by auto
  have "r3 = 17" by (rule nat_near [OF r3]) simp
  with f3 have e3: "format_change 100 (Some 120) = Inr (u ''100 '' @ [8595] @ u '' -17%'')"
    by (simp add: d n u_def)
  from format_change_renders [OF b(4)]
  have e4: "format_change 1234567 None = Inr (u ''1,234,567'')"
    by (simp add: n)
  from e1 e2 e3 e4 show ?thesis by blast
qed

text \<open>
  Outside these bounds the float arithmetic shows: with \<open>current = 2 ^ 1024 + 1\<close> and
  \<open>previous = 1\<close> the division raises \<^verbatim>\<open>OverflowError\<close>, so nothing is returned. And within
  them, a small decrease is rendered with the no-change marker and a minus sign:
  \<open>999\<close> after \<open>1000\<close> gives \<^verbatim>\<open>-0%\<close>.
\<close>

theorem format_change_counterexample:
  "format_change (2 ^ 1024 + 1) (Some 1) = Inl OverflowError
   \<and> format_change 999 (Some 1000) = Inr (u ''999 '' @ [8596] @ u '' -0%'')"
proof -
  have "round_double (2 ^ 1024) = None"
    by (rule round_double_overflow) simp
  then have over: "format_change (2 ^ 1024 + 1) (Some 1) = Inl OverflowError"
    by (simp add: format_change_def int_truediv_def Let_def)
  from format_change_bounded [of 1000 999]
  obtain r :: nat where r: "\<bar>of_nat r - 100 * of_int \<bar>999 - 1000\<bar> / of_int \<bar>1000\<bar>\<bar> \<le> (1 / 2 :: rat)"
    and f: "format_change 999 (Some 1000) =
      Inr (format_number 999 @ u '' '' @ [8596] @ u '' '' @ [] @ u ''-'' @ digits r @ u ''%'')"
    by auto
  have "r = 0" by (rule nat_near [OF r]) simp
  with f have "format_change 999 (Some 1000) = Inr (u ''999 '' @ [8596] @ u '' -0%'')"
    by (simp add: format_number_def digits.simps u_def)
  with over show ?thesis by blast
qed

end
